theory Spec2Isabelle
  imports Complex_Main "HOL-Library.AList" "HOL-Library.Multiset"
begin

section \<open>Text primitives of the rater\<close>

text \<open>
  The rater (\<^verbatim>\<open>worker/tools/rate.py\<close>) works on Python \<^verbatim>\<open>str\<close> values. A text is
  modelled as a list of code points, one \<^typ>\<open>char\<close> per code point, for the code points
  below 256. A Python \<^verbatim>\<open>float\<close> is a \<^typ>\<open>real\<close> here and arithmetic is exact: the
  rounding of IEEE doubles, their infinities and their not-a-number are not part of the
  model, so nothing below speaks of floating-point error.
\<close>

definition is_space :: "char \<Rightarrow> bool" where
  \<comment> \<open>\<^verbatim>\<open>str.isspace\<close> on one character, which is also the class \<^verbatim>\<open>\s\<close> of \<^verbatim>\<open>re\<close>.\<close>
  "is_space c = (c \<in> set [CHR 0x09, CHR 0x0A, CHR 0x0B, CHR 0x0C, CHR 0x0D,
                           CHR 0x1C, CHR 0x1D, CHR 0x1E, CHR 0x1F, CHR 0x20,
                           CHR 0x85, CHR 0xA0])"

definition is_digit :: "char \<Rightarrow> bool" where
  \<comment> \<open>the class \<^verbatim>\<open>\d\<close>: the decimal digits.\<close>
  "is_digit c = (c \<in> set ''0123456789'')"

definition is_word :: "char \<Rightarrow> bool" where
  \<comment> \<open>the class \<^verbatim>\<open>\w\<close>: alphanumeric characters and the underscore.\<close>
  "is_word c = (let n = (of_char c :: nat) in
     (48 \<le> n \<and> n \<le> 57) \<or> (65 \<le> n \<and> n \<le> 90) \<or> n = 95 \<or> (97 \<le> n \<and> n \<le> 122) \<or>
     n = 170 \<or> n = 178 \<or> n = 179 \<or> n = 181 \<or> n = 185 \<or> n = 186 \<or>
     (188 \<le> n \<and> n \<le> 190) \<or> (192 \<le> n \<and> n \<le> 214) \<or> (216 \<le> n \<and> n \<le> 246) \<or>
     248 \<le> n)"

definition is_linebreak :: "char \<Rightarrow> bool" where
  \<comment> \<open>the line boundaries of \<^verbatim>\<open>str.splitlines\<close>.\<close>
  "is_linebreak c = (c \<in> set [CHR 0x0A, CHR 0x0B, CHR 0x0C, CHR 0x0D,
                               CHR 0x1C, CHR 0x1D, CHR 0x1E, CHR 0x85])"

fun splitlines :: "string \<Rightarrow> string list" where
  \<comment> \<open>\<^verbatim>\<open>str.splitlines()\<close>: boundaries are dropped, \<^verbatim>\<open>\r\n\<close> is one boundary, and a
      boundary at the very end opens no further line.\<close>
  "splitlines [] = []"
| "splitlines [c] = (if is_linebreak c then [[]] else [[c]])"
| "splitlines (c # d # cs) =
     (if c = CHR 0x0D \<and> d = CHR 0x0A then [] # splitlines cs
      else if is_linebreak c then [] # splitlines (d # cs)
      else (case splitlines (d # cs) of
              [] \<Rightarrow> [[c]]
            | l # ls \<Rightarrow> (c # l) # ls))"

definition rstrip :: "string \<Rightarrow> string" where
  "rstrip s = rev (dropWhile is_space (rev s))"

definition strip :: "string \<Rightarrow> string" where
  "strip s = dropWhile is_space (rstrip s)"

fun contains :: "string \<Rightarrow> string \<Rightarrow> bool" where
  \<comment> \<open>\<^verbatim>\<open>p in s\<close> on strings.\<close>
  "contains p [] = (p = [])"
| "contains p (c # cs) = (take (length p) (c # cs) = p \<or> contains p cs)"

definition join_lines :: "string list \<Rightarrow> string" where
  \<comment> \<open>\<^verbatim>\<open>"\n".join(ls)\<close>\<close>
  "join_lines ls = (case ls of [] \<Rightarrow> [] | l # rest \<Rightarrow> l @ concat (map (\<lambda>x. CHR 0x0A # x) rest))"

subsection \<open>Decimal literals\<close>

definition digit_val :: "char \<Rightarrow> nat" where
  "digit_val c = of_char c - 48"

definition digits_val :: "string \<Rightarrow> nat" where
  "digits_val ds = foldl (\<lambda>n c. 10 * n + digit_val c) 0 ds"

definition unsigned_float :: "string \<Rightarrow> real option" where
  "unsigned_float s =
     (let ip = takeWhile is_digit s; r = dropWhile is_digit s in
      if ip = [] then None
      else (case r of
              [] \<Rightarrow> Some (real (digits_val ip))
            | c # fp \<Rightarrow>
                if c = CHR ''.'' \<and> fp \<noteq> [] \<and> list_all is_digit fp
                then Some (real (digits_val ip) + real (digits_val fp) / 10 ^ length fp)
                else None))"

definition float_of :: "string \<Rightarrow> real option" where
  \<comment> \<open>\<^verbatim>\<open>float(s)\<close> on a decimal literal \<^verbatim>\<open>-?\d+(\.\d+)?\<close>, the only form the patterns
      below capture: the exact value of the literal, which Python rounds to the nearest
      double; \<open>None\<close> stands for every other text.\<close>
  "float_of s =
     (case s of
        [] \<Rightarrow> None
      | c # r \<Rightarrow> if c = CHR ''-'' then map_option uminus (unsigned_float r)
                 else unsigned_float s)"

section \<open>Backtracking pattern matching\<close>

text \<open>
  The three patterns of \<^verbatim>\<open>parse_ratings\<close> use a small part of Python's \<^verbatim>\<open>re\<close>:
  character classes, greedy and lazy repetition of a class, greedy options, capture
  groups, and the assertions \<^verbatim>\<open>^\<close>, \<^verbatim>\<open>$\<close> and \<^verbatim>\<open>\b\<close>. \<^verbatim>\<open>re\<close> is a backtracking
  matcher: it explores the alternatives of each construct in a fixed order and returns the
  first complete match. The matcher below returns, for a pattern and a position, the list
  of all positions where the pattern can end, in the order in which backtracking reaches
  them; the head of that list is the match \<^verbatim>\<open>re\<close> reports.
\<close>

datatype cls = Space | Digit | AnyChar | Chr char

fun in_cls :: "cls \<Rightarrow> char \<Rightarrow> bool" where
  "in_cls Space c = is_space c"
| "in_cls Digit c = is_digit c"
| "in_cls AnyChar c = (c \<noteq> CHR 0x0A)"
| "in_cls (Chr d) c = (c = d)"

datatype re =
    One cls
  | Rep bool nat cls
  | Opt re
  | Then re re
  | Grp nat re
  | Bol
  | Eol
  | WordB
  | Eps

record mstate =
  prev :: "char option"
  rest :: string
  groups :: "(nat \<times> string) list"

fun spans :: "cls \<Rightarrow> char option \<Rightarrow> string \<Rightarrow> (char option \<times> string) list" where
  \<comment> \<open>the positions reached by consuming 0, 1, 2, ... characters of the class.\<close>
  "spans k p [] = [(p, [])]"
| "spans k p (c # cs) = (p, c # cs) # (if in_cls k c then spans k (Some c) cs else [])"

definition at_boundary :: "char option \<Rightarrow> string \<Rightarrow> bool" where
  "at_boundary p s =
     ((case p of None \<Rightarrow> False | Some c \<Rightarrow> is_word c) \<noteq>
      (case s of [] \<Rightarrow> False | c # _ \<Rightarrow> is_word c))"

fun run :: "re \<Rightarrow> mstate \<Rightarrow> mstate list" where
  "run (One k) st =
     (case rest st of
        [] \<Rightarrow> []
      | c # cs \<Rightarrow> if in_cls k c then [st\<lparr>prev := Some c, rest := cs\<rparr>] else [])"
| "run (Rep greedy n k) st =
     (let cands = map (\<lambda>(p, s). st\<lparr>prev := p, rest := s\<rparr>) (drop n (spans k (prev st) (rest st)))
      in if greedy then rev cands else cands)"
| "run (Opt r) st = run r st @ [st]"
| "run (Then r1 r2) st = concat (map (run r2) (run r1 st))"
| "run (Grp i r) st =
     map (\<lambda>st'. st'\<lparr>groups := (i, take (length (rest st) - length (rest st')) (rest st)) # groups st'\<rparr>)
         (run r st)"
| "run Bol st = (if prev st = None then [st] else [])"
| "run Eol st = (if rest st = [] \<or> rest st = [CHR 0x0A] then [st] else [])"
| "run WordB st = (if at_boundary (prev st) (rest st) then [st] else [])"
| "run Eps st = [st]"

definition re_match :: "re \<Rightarrow> string \<Rightarrow> (nat \<times> string) list option" where
  \<comment> \<open>\<^verbatim>\<open>pattern.match(s)\<close>: the groups of the first match at the start of \<open>s\<close>.\<close>
  "re_match r s =
     (case run r \<lparr>prev = None, rest = s, groups = []\<rparr> of
        [] \<Rightarrow> None
      | st # _ \<Rightarrow> Some (groups st))"

definition seq :: "re list \<Rightarrow> re" where
  "seq rs = foldr Then rs Eps"

definition group :: "(nat \<times> string) list \<Rightarrow> nat \<Rightarrow> string" where
  "group g i = (case map_of g i of None \<Rightarrow> [] | Some s \<Rightarrow> s)"

section \<open>The ratings table parser\<close>

definition decimal :: re where
  \<comment> \<open>\<^verbatim>\<open>\d+(?:\.\d+)?\<close>\<close>
  "decimal = seq [Rep True 1 Digit, Opt (seq [One (Chr CHR ''.''), Rep True 1 Digit])]"

definition signed_decimal :: re where
  \<comment> \<open>\<^verbatim>\<open>-?\d+(?:\.\d+)?\<close>\<close>
  "signed_decimal = seq [Opt (One (Chr CHR ''-'')), decimal]"

definition pat_cols :: re where
  \<comment> \<open>Pattern A: \<^verbatim>\<open>^\s*\d+\s+(.+?)\s+(-?\d+(?:\.\d+)?)\s+(\d+(?:\.\d+)?)\b\<close>\<close>
  "pat_cols = seq [Bol, Rep True 0 Space, Rep True 1 Digit, Rep True 1 Space,
                   Grp 1 (Rep False 1 AnyChar), Rep True 1 Space,
                   Grp 2 signed_decimal, Rep True 1 Space,
                   Grp 3 decimal, WordB]"

definition pat_pm :: re where
  \<comment> \<open>Pattern B: \<^verbatim>\<open>^\s*(.+?)\s*:\s*(-?\d+(?:\.\d+)?)\s*\+/\-\s*(\d+(?:\.\d+)?)\s*$\<close>\<close>
  "pat_pm = seq [Bol, Rep True 0 Space,
                 Grp 1 (Rep False 1 AnyChar), Rep True 0 Space,
                 One (Chr CHR '':''), Rep True 0 Space,
                 Grp 2 signed_decimal, Rep True 0 Space,
                 One (Chr CHR ''+''), One (Chr CHR ''/''), One (Chr CHR ''-''), Rep True 0 Space,
                 Grp 3 decimal, Rep True 0 Space, Eol]"

definition pat_fb :: re where
  \<comment> \<open>Fallback: \<^verbatim>\<open>^\s*(.+?)\s+(-?\d+(?:\.\d+)?)\s+(\d+(?:\.\d+)?)\s*$\<close>\<close>
  "pat_fb = seq [Bol, Rep True 0 Space,
                 Grp 1 (Rep False 1 AnyChar), Rep True 1 Space,
                 Grp 2 signed_decimal, Rep True 1 Space,
                 Grp 3 decimal, Rep True 0 Space, Eol]"

definition match_line :: "string \<Rightarrow> (nat \<times> string) list option" where
  \<comment> \<open>\<^verbatim>\<open>pat_cols.match(ln) or pat_pm.match(ln) or pat_fb.match(ln)\<close>\<close>
  "match_line line =
     (case re_match pat_cols line of
        Some m \<Rightarrow> Some m
      | None \<Rightarrow> (case re_match pat_pm line of
                   Some m \<Rightarrow> Some m
                 | None \<Rightarrow> re_match pat_fb line))"

definition has_header :: "string \<Rightarrow> bool" where
  "has_header line = (contains ''Name'' line \<and> contains ''Elo'' line)"

fun find_start :: "nat \<Rightarrow> string list \<Rightarrow> nat" where
  \<comment> \<open>the loop that sets \<^verbatim>\<open>start\<close>: one past the first header line, 0 when there is none.\<close>
  "find_start i [] = 0"
| "find_start i (line # rest_lines) = (if has_header line then i + 1 else find_start (i + 1) rest_lines)"

type_synonym ratings = "(string \<times> real \<times> real) list"

datatype failure =
    PgnNotFound string
  | BayesEloNotExecutable string
  | BayesEloNotFound string
  | BayesEloFailed int string
  | CouldNotParse string
  | EngineNotFound string "string list"
  | ValueError string

text \<open>
  The failures are the messages of the calls of \<^verbatim>\<open>die\<close>, each with the data it
  prints; \<open>ValueError\<close> is the exception of \<^verbatim>\<open>float\<close>, which no captured group
  raises (lemma \<open>parse_ratings_no_value_error\<close> below).
\<close>

fun scan_lines :: "ratings \<Rightarrow> string list \<Rightarrow> failure + ratings" where
  \<comment> \<open>the loop over \<^verbatim>\<open>lines[start:]\<close>; the dictionary keeps its keys in insertion order,
      and assigning to a key that is present replaces the value in place.\<close>
  "scan_lines ratings [] = Inr ratings"
| "scan_lines ratings (l # ls) =
     (let line = rstrip l in
      if strip line = [] then scan_lines ratings ls
      else (case match_line line of
              None \<Rightarrow> scan_lines ratings ls
            | Some m \<Rightarrow>
                (let name = strip (group m 1) in
                 case float_of (group m 2) of
                   None \<Rightarrow> Inl (ValueError (group m 2))
                 | Some elo \<Rightarrow>
                     (case float_of (group m 3) of
                        None \<Rightarrow> Inl (ValueError (group m 3))
                      | Some err \<Rightarrow> scan_lines (AList.update name (elo, err) ratings) ls))))"

definition parse_ratings :: "string \<Rightarrow> failure + ratings" where
  "parse_ratings output =
     (let lines = splitlines output;
          start = find_start 0 lines in
      case scan_lines [] (drop start lines) of
        Inl e \<Rightarrow> Inl e
      | Inr ratings \<Rightarrow>
          if ratings = [] then Inl (CouldNotParse (join_lines (drop (length lines - 40) lines)))
          else Inr ratings)"

section \<open>The normalizer\<close>

definition mean_center :: "ratings \<Rightarrow> ratings" where
  \<comment> \<open>the keys of a dictionary are distinct, so the comprehension over \<^verbatim>\<open>ratings.items()\<close>
      yields one entry per entry, in the same order.\<close>
  "mean_center ratings =
     (if ratings = [] then ratings
      else (let mean = sum_list (map (\<lambda>(name, elo, sigma). elo) ratings) / real (length ratings)
            in map (\<lambda>(name, elo, sigma). (name, elo - mean, sigma)) ratings))"

section \<open>The report\<close>

definition sorted_reverse :: "('a \<Rightarrow> real) \<Rightarrow> 'a list \<Rightarrow> 'a list" where
  \<comment> \<open>\<^verbatim>\<open>sorted(xs, key=key, reverse=True)\<close>: the list is reversed, sorted by a stable
      ascending sort, and reversed again.\<close>
  "sorted_reverse key xs = rev (sort_key key (rev xs))"

record row =
  name :: string
  elo :: real
  sigma :: real

datatype body = Ratings "row list" | Engine row

record report =
  version :: string
  mode :: string
  pgn :: string
  body :: body
  notes_text :: string

definition row_of :: "string \<times> real \<times> real \<Rightarrow> row" where
  \<comment> \<open>\<^verbatim>\<open>{"name": name, "elo": elo, "sigma": sigma}\<close>\<close>
  "row_of kv = (case kv of (n, e, s) \<Rightarrow> \<lparr>name = n, elo = e, sigma = s\<rparr>)"

definition make_rows :: "ratings \<Rightarrow> row list" where
  \<comment> \<open>the loop that fills \<^verbatim>\<open>rows\<close> from the sorted items.\<close>
  "make_rows rel = map row_of (sorted_reverse (\<lambda>kv. fst (snd kv)) rel)"

definition assemble :: "string \<Rightarrow> string option \<Rightarrow> ratings \<Rightarrow> failure + report" where
  \<comment> \<open>the part of \<^verbatim>\<open>main\<close> after \<^verbatim>\<open>mean_center\<close>; \<^verbatim>\<open>if args.engine_name:\<close> holds for a
      name that is given and not empty.\<close>
  "assemble path engine_name rel =
     (let rows = make_rows rel;
          payload = \<lparr>version = ''0'', mode = ''relative-only'', pgn = path, body = Ratings rows,
                     notes_text = ''Relative Elo, mean-centered; not calibrated to any external scale.''\<rparr>
      in case engine_name of
           None \<Rightarrow> Inr payload
         | Some target \<Rightarrow>
             if target = [] then Inr payload
             else (case find (\<lambda>r. name r = target) rows of
                     None \<Rightarrow> Inl (EngineNotFound target (map name rows))
                   | Some r \<Rightarrow>
                       Inr \<lparr>version = ''0'', mode = ''relative-only'', pgn = path, body = Engine r,
                            notes_text = ''Relative Elo, mean-centered; not calibrated.''\<rparr>))"

section \<open>The program\<close>

datatype proc = NoSuchFile | Exited int string

record world =
  isfile :: "string \<Rightarrow> bool"
  executable :: "string \<Rightarrow> bool"
  popen :: "string \<Rightarrow> string \<Rightarrow> proc"

record args =
  arg_pgn :: string
  arg_bayeselo :: string
  arg_engine_name :: "string option"

definition session_script :: "string \<Rightarrow> string" where
  \<comment> \<open>\<^verbatim>\<open>"readpgn {p}\nelo\nmm\nratings\nx\n".format(p=pgn)\<close>\<close>
  "session_script path =
     ''readpgn '' @ path @ [CHR 0x0A] @ ''elo'' @ [CHR 0x0A] @ ''mm'' @ [CHR 0x0A]
       @ ''ratings'' @ [CHR 0x0A] @ ''x'' @ [CHR 0x0A]"

definition run_bayeselo :: "world \<Rightarrow> string \<Rightarrow> string \<Rightarrow> failure + string" where
  \<comment> \<open>the process is started on the binary and fed the script; it either cannot be started
      (\<^verbatim>\<open>FileNotFoundError\<close>) or exits with a return code and its merged output.\<close>
  "run_bayeselo w bayeselo_bin path =
     (case popen w bayeselo_bin (session_script path) of
        NoSuchFile \<Rightarrow> Inl (BayesEloNotFound bayeselo_bin)
      | Exited returncode out \<Rightarrow>
          if returncode \<noteq> 0 then Inl (BayesEloFailed returncode out) else Inr out)"

definition pipeline :: "world \<Rightarrow> args \<Rightarrow> failure + report" where
  \<comment> \<open>the body of \<^verbatim>\<open>main\<close>; \<open>Inl\<close> is the message of the \<^verbatim>\<open>die\<close> that ends it.\<close>
  "pipeline w a =
     (if \<not> isfile w (arg_pgn a) then Inl (PgnNotFound (arg_pgn a))
      else if \<not> (isfile w (arg_bayeselo a) \<and> executable w (arg_bayeselo a))
        then Inl (BayesEloNotExecutable (arg_bayeselo a))
      else (case run_bayeselo w (arg_bayeselo a) (arg_pgn a) of
              Inl e \<Rightarrow> Inl e
            | Inr raw_out \<Rightarrow>
                (case parse_ratings raw_out of
                   Inl e \<Rightarrow> Inl e
                 | Inr raw \<Rightarrow> assemble (arg_pgn a) (arg_engine_name a) (mean_center raw))))"

record outcome =
  stdout :: "report option"
  stderr :: "failure option"
  exit_status :: nat

definition die :: "failure \<Rightarrow> outcome" where
  \<comment> \<open>\<^verbatim>\<open>print(msg, file=sys.stderr); sys.exit(1)\<close>\<close>
  "die msg = \<lparr>stdout = None, stderr = Some msg, exit_status = 1\<rparr>"

definition main :: "world \<Rightarrow> args \<Rightarrow> outcome" where
  "main w a =
     (case pipeline w a of
        Inl msg \<Rightarrow> die msg
      | Inr payload \<Rightarrow> \<lparr>stdout = Some payload, stderr = None, exit_status = 0\<rparr>)"

section \<open>Notions used to state the properties\<close>

text \<open>
  The words a pattern can consume, the captures it can record and the groups every match of
  it records. The assertions consume nothing.
\<close>

fun lang :: "re \<Rightarrow> string set" where
  "lang (One k) = {[c] | c. in_cls k c}"
| "lang (Rep g n k) = {w. n \<le> length w \<and> list_all (in_cls k) w}"
| "lang (Opt r) = insert [] (lang r)"
| "lang (Then a b) = {u @ v | u v. u \<in> lang a \<and> v \<in> lang b}"
| "lang (Grp i r) = lang r"
| "lang Bol = {[]}"
| "lang Eol = {[]}"
| "lang WordB = {[]}"
| "lang Eps = {[]}"

fun caps :: "re \<Rightarrow> (nat \<times> string) set" where
  "caps (Grp i r) = {(i, w) | w. w \<in> lang r} \<union> caps r"
| "caps (Then a b) = caps a \<union> caps b"
| "caps (Opt r) = caps r"
| "caps (One k) = {}"
| "caps (Rep g n k) = {}"
| "caps Bol = {}"
| "caps Eol = {}"
| "caps WordB = {}"
| "caps Eps = {}"

fun must :: "re \<Rightarrow> nat set" where
  "must (Grp i r) = insert i (must r)"
| "must (Then a b) = must a \<union> must b"
| "must (Opt r) = {}"
| "must (One k) = {}"
| "must (Rep g n k) = {}"
| "must Bol = {}"
| "must Eol = {}"
| "must WordB = {}"
| "must Eps = {}"

definition step_ok :: "re \<Rightarrow> mstate \<Rightarrow> mstate \<Rightarrow> bool" where
  "step_ok r st st' \<longleftrightarrow>
     (\<exists>w. rest st = w @ rest st' \<and> w \<in> lang r) \<and>
     (\<exists>new. groups st' = new @ groups st \<and> set new \<subseteq> caps r \<and> must r \<subseteq> fst ` set new)"

text \<open>
  A table pattern records the groups 1, 2 and 3 in every match, group 2 over a signed decimal
  literal and group 3 over an unsigned one.
\<close>

definition table_pattern :: "re \<Rightarrow> bool" where
  "table_pattern r \<longleftrightarrow>
     must r = {1, 2, 3} \<and>
     caps r \<subseteq> {(1, w) | w. True} \<union> {(2, w) | w. w \<in> lang signed_decimal}
              \<union> {(3, w) | w. w \<in> lang decimal}"

text \<open>
  The record that one pass of the loop body of \<^verbatim>\<open>parse_ratings\<close> assigns for a line,
  \<open>None\<close> when the pass assigns nothing; the record a single pattern gives; the records
  of the lines the loop visits; and the dictionary that a sequence of assignments builds.
\<close>

definition record_of :: "(nat \<times> string) list \<Rightarrow> (string \<times> real \<times> real) option" where
  "record_of m =
     (case float_of (group m 2) of
        None \<Rightarrow> None
      | Some e \<Rightarrow> (case float_of (group m 3) of
                     None \<Rightarrow> None
                   | Some s \<Rightarrow> Some (strip (group m 1), e, s)))"

definition rule_record :: "re \<Rightarrow> string \<Rightarrow> (string \<times> real \<times> real) option" where
  "rule_record pat line = (case re_match pat line of None \<Rightarrow> None | Some m \<Rightarrow> record_of m)"

definition line_record :: "string \<Rightarrow> (string \<times> real \<times> real) option" where
  "line_record l =
     (let line = rstrip l in
      if strip line = [] then None
      else (case match_line line of None \<Rightarrow> None | Some m \<Rightarrow> record_of m))"

definition scanned_lines :: "string \<Rightarrow> string list" where
  "scanned_lines output = drop (find_start 0 (splitlines output)) (splitlines output)"

definition scanned_records :: "string \<Rightarrow> ratings" where
  "scanned_records output = List.map_filter line_record (scanned_lines output)"

definition assign_all :: "ratings \<Rightarrow> ratings \<Rightarrow> ratings" where
  "assign_all d recs = foldl (\<lambda>d (n, v). AList.update n v d) d recs"

definition tail_lines :: "string \<Rightarrow> string" where
  \<comment> \<open>the last 40 lines, joined by newlines.\<close>
  "tail_lines output = join_lines (drop (length (splitlines output) - 40) (splitlines output))"

fun lines_text :: "string list \<Rightarrow> string" where
  \<comment> \<open>the text that shows the given lines: one after the other, a newline between two
      neighbours.\<close>
  "lines_text [] = []"
| "lines_text [l] = l"
| "lines_text (l # m # ls) = l @ CHR 0x0A # lines_text (m # ls)"

definition arithmetic_mean :: "real list \<Rightarrow> real" where
  "arithmetic_mean xs = sum_list xs / real (length xs)"

definition inputs_ok :: "world \<Rightarrow> args \<Rightarrow> bool" where
  \<comment> \<open>both checks at the head of \<^verbatim>\<open>main\<close> pass.\<close>
  "inputs_ok w a \<longleftrightarrow>
     isfile w (arg_pgn a) \<and> isfile w (arg_bayeselo a) \<and> executable w (arg_bayeselo a)"

section \<open>Soundness of the matcher\<close>

lemma spans_length: "length (spans k p s) \<le> Suc (length s)"
  by (induction s arbitrary: p) auto

lemma spans_nth:
  "j < length (spans k p s) \<Longrightarrow> snd (spans k p s ! j) = drop j s \<and> list_all (in_cls k) (take j s)"
proof (induction s arbitrary: p j)
  case Nil
  then show ?case by simp
next
  case (Cons c cs)
  show ?case
  proof (cases j)
    case 0
    then show ?thesis by simp
  next
    case (Suc i)
    with Cons.prems have ok: "in_cls k c" and i: "i < length (spans k (Some c) cs)"
      by (auto split: if_splits)
    from Cons.IH [OF i] ok Suc show ?thesis by simp
  qed
qed

lemma spans_drop_sound:
  assumes "(p', s') \<in> set (drop n (spans k p s))"
  shows "\<exists>w. s = w @ s' \<and> n \<le> length w \<and> list_all (in_cls k) w"
proof -
  from assms obtain i where i: "i < length (drop n (spans k p s))"
    and e: "drop n (spans k p s) ! i = (p', s')"
    by (auto simp: in_set_conv_nth)
  let ?j = "n + i"
  from i have j: "?j < length (spans k p s)" by simp
  with e have e': "spans k p s ! ?j = (p', s')" by simp
  from spans_nth [OF j] e' have s': "s' = drop ?j s" and cl: "list_all (in_cls k) (take ?j s)"
    by simp_all
  from j spans_length [of k p s] have "?j \<le> length s" by simp
  then have "length (take ?j s) = ?j" by simp
  with s' cl show ?thesis
    by (intro exI [of _ "take ?j s"]) simp
qed

lemma step_ok_refl: "[] \<in> lang r \<Longrightarrow> must r = {} \<Longrightarrow> step_ok r st st"
  unfolding step_ok_def by (auto intro: exI [of _ "[]"])

lemma step_ok_Opt: "step_ok r st st' \<Longrightarrow> step_ok (Opt r) st st'"
  unfolding step_ok_def by auto

lemma step_ok_Then:
  assumes "step_ok r1 st m" "step_ok r2 m st'"
  shows "step_ok (Then r1 r2) st st'"
proof -
  from assms obtain u v where u: "rest st = u @ rest m" "u \<in> lang r1"
    and v: "rest m = v @ rest st'" "v \<in> lang r2"
    unfolding step_ok_def by blast
  from assms obtain n1 n2 where n1: "groups m = n1 @ groups st" "set n1 \<subseteq> caps r1" "must r1 \<subseteq> fst ` set n1"
    and n2: "groups st' = n2 @ groups m" "set n2 \<subseteq> caps r2" "must r2 \<subseteq> fst ` set n2"
    unfolding step_ok_def by blast
  have "rest st = (u @ v) @ rest st'" using u v by simp
  moreover have "u @ v \<in> lang (Then r1 r2)" using u v by auto
  moreover have "groups st' = (n2 @ n1) @ groups st" using n1 n2 by simp
  moreover have "set (n2 @ n1) \<subseteq> caps (Then r1 r2)" using n1 n2 by auto
  moreover have "must (Then r1 r2) \<subseteq> fst ` set (n2 @ n1)" using n1 n2 by auto
  ultimately show ?thesis unfolding step_ok_def by blast
qed

lemma step_ok_Grp:
  assumes "step_ok r st m"
  shows "step_ok (Grp i r) st
           (m\<lparr>groups := (i, take (length (rest st) - length (rest m)) (rest st)) # groups m\<rparr>)"
proof -
  from assms obtain w where w: "rest st = w @ rest m" "w \<in> lang r"
    unfolding step_ok_def by blast
  from assms obtain new where n: "groups m = new @ groups st" "set new \<subseteq> caps r" "must r \<subseteq> fst ` set new"
    unfolding step_ok_def by blast
  let ?c = "(i, take (length (rest st) - length (rest m)) (rest st))"
  have c: "?c = (i, w)" using w by simp
  have "set (?c # new) \<subseteq> caps (Grp i r)" using n w unfolding c by auto
  moreover have "must (Grp i r) \<subseteq> fst ` set (?c # new)" using n by auto
  moreover have "?c # groups m = (?c # new) @ groups st" using n by simp
  ultimately have "\<exists>new'. ?c # groups m = new' @ groups st \<and> set new' \<subseteq> caps (Grp i r)
      \<and> must (Grp i r) \<subseteq> fst ` set new'"
    by blast
  moreover have "\<exists>w. rest st = w @ rest m \<and> w \<in> lang (Grp i r)" using w by auto
  ultimately show ?thesis unfolding step_ok_def by simp
qed

lemma run_sound: "st' \<in> set (run r st) \<Longrightarrow> step_ok r st st'"
proof (induction r arbitrary: st st')
  case (One k)
  show ?case
  proof (cases "rest st")
    case Nil
    with One show ?thesis by simp
  next
    case (Cons c cs)
    with One have k: "in_cls k c" and st': "st' = st\<lparr>prev := Some c, rest := cs\<rparr>"
      by (auto split: if_splits)
    have "rest st = [c] @ rest st'" using Cons st' by simp
    moreover have "[c] \<in> lang (One k)" using k by simp
    ultimately show ?thesis using st' unfolding step_ok_def by auto
  qed
next
  case (Rep g n k)
  then obtain p s where ps: "(p, s) \<in> set (drop n (spans k (prev st) (rest st)))"
    and st': "st' = st\<lparr>prev := p, rest := s\<rparr>"
    by (auto simp: Let_def split: if_splits)
  from spans_drop_sound [OF ps] obtain w where "rest st = w @ s" "n \<le> length w" "list_all (in_cls k) w"
    by blast
  then have a: "\<exists>w. rest st = w @ rest st' \<and> w \<in> lang (Rep g n k)" using st' by auto
  have "groups st' = [] @ groups st \<and> set [] \<subseteq> caps (Rep g n k) \<and> must (Rep g n k) \<subseteq> fst ` set []"
    using st' by simp
  then have b: "\<exists>new. groups st' = new @ groups st \<and> set new \<subseteq> caps (Rep g n k)
      \<and> must (Rep g n k) \<subseteq> fst ` set new"
    by (rule exI)
  from a b show ?case unfolding step_ok_def by (rule conjI)
next
  case (Opt r)
  then show ?case by (auto intro: step_ok_Opt step_ok_refl)
next
  case (Then r1 r2)
  then obtain m where m: "m \<in> set (run r1 st)" and s: "st' \<in> set (run r2 m)" by auto
  from Then.IH(1) [OF m] Then.IH(2) [OF s] show ?case by (rule step_ok_Then)
next
  case (Grp i r)
  then obtain m where m: "m \<in> set (run r st)"
    and st': "st' = m\<lparr>groups := (i, take (length (rest st) - length (rest m)) (rest st)) # groups m\<rparr>"
    by auto
  from Grp.IH [OF m] show ?case unfolding st' by (rule step_ok_Grp)
next
  case Bol
  then show ?case by (auto intro: step_ok_refl split: if_splits)
next
  case Eol
  then show ?case by (auto intro: step_ok_refl split: if_splits)
next
  case WordB
  then show ?case by (auto intro: step_ok_refl split: if_splits)
next
  case Eps
  then show ?case by (auto intro: step_ok_refl)
qed

lemma re_match_sound:
  assumes "re_match r s = Some g"
  shows "set g \<subseteq> caps r \<and> must r \<subseteq> fst ` set g"
proof -
  let ?st0 = "\<lparr>prev = None, rest = s, groups = []\<rparr>"
  from assms obtain st sts where r: "run r ?st0 = st # sts" and g: "g = groups st"
    by (auto simp: re_match_def split: list.splits)
  then have "st \<in> set (run r ?st0)" by simp
  from run_sound [OF this] g show ?thesis by (auto simp: step_ok_def)
qed

lemma group_in_caps:
  assumes "set g \<subseteq> caps r" "i \<in> must r" "must r \<subseteq> fst ` set g"
  shows "(i, group g i) \<in> caps r"
proof -
  from assms have "i \<in> fst ` set g" by blast
  then obtain w where "map_of g i = Some w"
    by (metis map_of_eq_None_iff not_Some_eq)
  then have "(i, w) \<in> set g" and "group g i = w"
    by (auto simp: group_def dest: map_of_SomeD)
  with assms(1) show ?thesis by auto
qed

lemma takeWhile_digits: "list_all is_digit u \<Longrightarrow> \<not> is_digit c \<Longrightarrow> takeWhile is_digit (u @ c # v) = u"
  by (induction u) auto

lemma dropWhile_digits: "list_all is_digit u \<Longrightarrow> \<not> is_digit c \<Longrightarrow> dropWhile is_digit (u @ c # v) = c # v"
  by (induction u) auto

lemma takeWhile_all: "list_all is_digit u \<Longrightarrow> takeWhile is_digit u = u"
  by (induction u) auto

lemma dropWhile_all: "list_all is_digit u \<Longrightarrow> dropWhile is_digit u = []"
  by (induction u) auto

lemma lang_decimal:
  "lang decimal = {u @ v | u v. 1 \<le> length u \<and> list_all is_digit u \<and>
      (v = [] \<or> (\<exists>d. v = CHR ''.'' # d \<and> 1 \<le> length d \<and> list_all is_digit d))}"
  unfolding decimal_def seq_def
  by (simp add: list_all_iff cong: conj_cong)

lemma unsigned_float_decimal:
  assumes "w \<in> lang decimal"
  shows "\<exists>x. unsigned_float w = Some x \<and> 0 \<le> x"
proof -
  from assms obtain u v where w: "w = u @ v" and u: "1 \<le> length u" "list_all is_digit u"
    and v: "v = [] \<or> (\<exists>d. v = CHR ''.'' # d \<and> 1 \<le> length d \<and> list_all is_digit d)"
    unfolding lang_decimal by blast
  have nd: "\<not> is_digit CHR ''.''" by (simp add: is_digit_def)
  from u have ne: "u \<noteq> []" by auto
  from v show ?thesis
  proof
    assume "v = []"
    with w u ne show ?thesis
      by (simp add: unsigned_float_def takeWhile_all dropWhile_all)
  next
    assume "\<exists>d. v = CHR ''.'' # d \<and> 1 \<le> length d \<and> list_all is_digit d"
    then obtain d where d: "v = CHR ''.'' # d" "1 \<le> length d" "list_all is_digit d" by blast
    then have "d \<noteq> []" by auto
    with w u ne d nd show ?thesis
      by (simp add: unsigned_float_def takeWhile_digits dropWhile_digits)
  qed
qed

lemma decimal_head:
  assumes "w \<in> lang decimal"
  shows "\<exists>c r. w = c # r \<and> is_digit c"
proof -
  from assms obtain u v where w: "w = u @ v" and u: "1 \<le> length u" "list_all is_digit u"
    unfolding lang_decimal by blast
  then show ?thesis by (cases u) auto
qed

lemma lang_signed_decimal:
  "lang signed_decimal = {s @ d | s d. (s = [] \<or> s = ''-'') \<and> d \<in> lang decimal}"
  unfolding signed_decimal_def seq_def
  by (rule set_eqI) simp

lemma float_of_signed_decimal:
  assumes "w \<in> lang signed_decimal"
  shows "\<exists>x. float_of w = Some x"
proof -
  from assms obtain s d where w: "w = s @ d" and s: "s = [] \<or> s = ''-''" and d: "d \<in> lang decimal"
    unfolding lang_signed_decimal by blast
  from unsigned_float_decimal [OF d] obtain x where x: "unsigned_float d = Some x" by blast
  from decimal_head [OF d] obtain c r where c: "d = c # r" "is_digit c" by blast
  then have "c \<noteq> CHR ''-''" by (auto simp: is_digit_def)
  with s w x c show ?thesis by (auto simp: float_of_def)
qed

lemma float_of_decimal:
  assumes "w \<in> lang decimal"
  shows "\<exists>x. float_of w = Some x \<and> 0 \<le> x"
proof -
  from unsigned_float_decimal [OF assms] obtain x where x: "unsigned_float w = Some x" "0 \<le> x" by blast
  from decimal_head [OF assms] obtain c r where c: "w = c # r" "is_digit c" by blast
  then have "c \<noteq> CHR ''-''" by (auto simp: is_digit_def)
  with x c show ?thesis by (auto simp: float_of_def)
qed

lemma caps_decimal: "caps decimal = {}"
  by (simp add: decimal_def seq_def)

lemma caps_signed_decimal: "caps signed_decimal = {}"
  by (simp add: signed_decimal_def seq_def caps_decimal)

lemma must_decimal: "must decimal = {}"
  by (simp add: decimal_def seq_def)

lemma must_signed_decimal: "must signed_decimal = {}"
  by (simp add: signed_decimal_def seq_def must_decimal)

lemma table_pattern_cols: "table_pattern pat_cols"
  unfolding table_pattern_def pat_cols_def seq_def
  by (auto simp: caps_decimal caps_signed_decimal must_decimal must_signed_decimal)

lemma table_pattern_pm: "table_pattern pat_pm"
  unfolding table_pattern_def pat_pm_def seq_def
  by (auto simp: caps_decimal caps_signed_decimal must_decimal must_signed_decimal)

lemma table_pattern_fb: "table_pattern pat_fb"
  unfolding table_pattern_def pat_fb_def seq_def
  by (auto simp: caps_decimal caps_signed_decimal must_decimal must_signed_decimal)

lemma re_match_record:
  assumes "table_pattern r" "re_match r s = Some m"
  shows "\<exists>e u. record_of m = Some (strip (group m 1), e, u) \<and> 0 \<le> u"
proof -
  from re_match_sound [OF assms(2)] have g: "set m \<subseteq> caps r" "must r \<subseteq> fst ` set m" by simp_all
  from assms(1) have m: "2 \<in> must r" "3 \<in> must r" by (simp_all add: table_pattern_def)
  from group_in_caps [OF g(1) m(1) g(2)] assms(1) have "group m 2 \<in> lang signed_decimal"
    by (auto simp: table_pattern_def)
  from float_of_signed_decimal [OF this] obtain e where e: "float_of (group m 2) = Some e" by blast
  from group_in_caps [OF g(1) m(2) g(2)] assms(1) have "group m 3 \<in> lang decimal"
    by (auto simp: table_pattern_def)
  from float_of_decimal [OF this] obtain u where u: "float_of (group m 3) = Some u" "0 \<le> u" by blast
  from e u show ?thesis by (simp add: record_of_def)
qed

lemma match_line_record:
  assumes "match_line line = Some m"
  shows "\<exists>e u. record_of m = Some (strip (group m 1), e, u) \<and> 0 \<le> u"
proof -
  from assms have "re_match pat_cols line = Some m \<or> re_match pat_pm line = Some m
      \<or> re_match pat_fb line = Some m"
    by (auto simp: match_line_def split: option.splits)
  then show ?thesis
    using re_match_record [OF table_pattern_cols] re_match_record [OF table_pattern_pm]
      re_match_record [OF table_pattern_fb] by blast
qed

lemma scan_lines_eq:
  "scan_lines acc ls = Inr (assign_all acc (List.map_filter line_record ls))"
proof (induction ls arbitrary: acc)
  case Nil
  show ?case by (simp add: assign_all_def List.map_filter_simps)
next
  case (Cons l ls)
  show ?case
  proof (cases "line_record l")
    case None
    have skip: "scan_lines acc (l # ls) = scan_lines acc ls"
    proof (cases "strip (rstrip l) = []")
      case True
      then show ?thesis by simp
    next
      case False
      show ?thesis
      proof (cases "match_line (rstrip l)")
        case None
        with False show ?thesis by simp
      next
        case (Some m)
        from match_line_record [OF Some] \<open>line_record l = None\<close> False Some
        show ?thesis by (auto simp: line_record_def)
      qed
    qed
    with None Cons.IH [of acc] show ?thesis by (simp add: List.map_filter_simps)
  next
    case (Some rec)
    then obtain m where ne: "strip (rstrip l) \<noteq> []" and m: "match_line (rstrip l) = Some m"
      and r: "record_of m = Some rec"
      by (auto simp: line_record_def Let_def split: if_splits option.splits)
    from match_line_record [OF m] r obtain e u where
      rec: "rec = (strip (group m 1), e, u)" by auto
    with r have f: "float_of (group m 2) = Some e" "float_of (group m 3) = Some u"
      by (auto simp: record_of_def split: option.splits)
    from ne m f have "scan_lines acc (l # ls) = scan_lines (AList.update (strip (group m 1)) (e, u) acc) ls"
      by simp
    with Some rec Cons.IH [of "AList.update (strip (group m 1)) (e, u) acc"]
    show ?thesis by (simp add: List.map_filter_simps assign_all_def)
  qed
qed

section \<open>The parser: properties\<close>

lemma assign_all_Nil: "assign_all d [] = d"
  by (simp add: assign_all_def)

lemma assign_all_Cons: "assign_all d ((n, v) # recs) = assign_all (AList.update n v d) recs"
  by (simp add: assign_all_def)

lemma update_not_Nil: "AList.update k v al \<noteq> []"
  by (cases al) simp_all

lemma assign_all_not_Nil: "d \<noteq> [] \<Longrightarrow> assign_all d recs \<noteq> []"
proof (induction recs arbitrary: d)
  case Nil
  then show ?case by (simp add: assign_all_Nil)
next
  case (Cons r recs)
  obtain n v where r: "r = (n, v)" by (cases r)
  show ?case unfolding r assign_all_Cons by (rule Cons.IH) (rule update_not_Nil)
qed

lemma assign_all_empty_iff: "assign_all [] recs = [] \<longleftrightarrow> recs = []"
proof (cases recs)
  case Nil
  then show ?thesis by (simp add: assign_all_Nil)
next
  case (Cons r rs)
  obtain n v where r: "r = (n, v)" by (cases r)
  have "assign_all [] (r # rs) \<noteq> []"
    unfolding r assign_all_Cons by (rule assign_all_not_Nil) (rule update_not_Nil)
  with Cons show ?thesis by simp
qed

lemma distinct_assign_all: "distinct (map fst d) \<Longrightarrow> distinct (map fst (assign_all d recs))"
proof (induction recs arbitrary: d)
  case Nil
  then show ?case by (simp add: assign_all_Nil)
next
  case (Cons r recs)
  obtain n v where r: "r = (n, v)" by (cases r)
  from Cons.prems have "distinct (map fst (AList.update n v d))" by (rule distinct_update)
  then show ?case unfolding r assign_all_Cons by (rule Cons.IH)
qed

lemma map_of_assign_all: "map_of (assign_all d recs) = map_of d ++ map_of (rev recs)"
proof (induction recs arbitrary: d)
  case Nil
  show ?case by (simp add: assign_all_Nil)
next
  case (Cons r recs)
  obtain n v where r: "r = (n, v)" by (cases r)
  have "map_of (assign_all d (r # recs)) = map_of (AList.update n v d) ++ map_of (rev recs)"
    unfolding r assign_all_Cons by (rule Cons.IH)
  also have "\<dots> = (map_of d)(n \<mapsto> v) ++ map_of (rev recs)"
    by (simp only: update_conv')
  also have "\<dots> = map_of d ++ ([n \<mapsto> v] ++ map_of (rev recs))"
    by (rule ext) (simp add: map_add_def split: option.splits)
  also have "[n \<mapsto> v] ++ map_of (rev recs) = map_of (rev (r # recs))"
    unfolding r by (simp only: rev.simps map_of_append map_of.simps fst_conv snd_conv)
  finally show ?case .
qed

lemma last_occurrence_snoc:
  "(\<exists>pre post. xs @ [(a, b)] = pre @ (n, v) # post \<and> n \<notin> fst ` set post) \<longleftrightarrow>
     (if a = n then b = v else (\<exists>pre post. xs = pre @ (n, v) # post \<and> n \<notin> fst ` set post))"
  (is "?L \<longleftrightarrow> ?R")
proof
  assume ?L
  then obtain pre post where e: "xs @ [(a, b)] = pre @ (n, v) # post" and p: "n \<notin> fst ` set post"
    by blast
  show ?R
  proof (cases post rule: rev_cases)
    case Nil
    with e have "xs = pre" "(a, b) = (n, v)" by simp_all
    then show ?thesis by simp
  next
    case (snoc ys y)
    with e have xs: "xs = pre @ (n, v) # ys" and y: "y = (a, b)" by simp_all
    from snoc p y have an: "a \<noteq> n" and ys: "n \<notin> fst ` set ys" by auto
    from xs ys have "\<exists>pre post. xs = pre @ (n, v) # post \<and> n \<notin> fst ` set post" by blast
    with an show ?thesis by simp
  qed
next
  assume r: ?R
  show ?L
  proof (cases "a = n")
    case True
    with r have "xs @ [(a, b)] = xs @ (n, v) # []" by simp
    then show ?thesis by (intro exI [of _ xs] exI [of _ "[]"]) simp
  next
    case False
    with r obtain pre post where e: "xs = pre @ (n, v) # post" and p: "n \<notin> fst ` set post"
      by auto
    from e have "xs @ [(a, b)] = pre @ (n, v) # (post @ [(a, b)])" by simp
    moreover from p False have "n \<notin> fst ` set (post @ [(a, b)])" by auto
    ultimately show ?thesis by blast
  qed
qed

lemma map_of_rev_last:
  "map_of (rev recs) n = Some v \<longleftrightarrow>
     (\<exists>pre post. recs = pre @ (n, v) # post \<and> n \<notin> fst ` set post)"
proof (induction recs rule: rev_induct)
  case Nil
  show ?case by simp
next
  case (snoc x xs)
  obtain a b where x: "x = (a, b)" by (cases x)
  have "map_of (rev (xs @ [x])) n = (if a = n then Some b else map_of (rev xs) n)"
    unfolding x by simp
  then show ?case
    unfolding x last_occurrence_snoc using snoc.IH by (cases "a = n") simp_all
qed

lemma parse_ratings_eq:
  "parse_ratings output =
     (if scanned_records output = [] then Inl (CouldNotParse (tail_lines output))
      else Inr (assign_all [] (scanned_records output)))"
  by (simp add: parse_ratings_def scan_lines_eq scanned_records_def scanned_lines_def
      tail_lines_def Let_def assign_all_empty_iff)

lemma parse_ratings_no_value_error: "parse_ratings output \<noteq> Inl (ValueError s)"
  by (simp add: parse_ratings_eq)

lemma map_filter_all_None: "(\<And>x. x \<in> set xs \<Longrightarrow> f x = None) \<Longrightarrow> List.map_filter f xs = []"
  by (induction xs) (auto simp: List.map_filter_simps)

lemma join_lines_text: "join_lines ls = lines_text ls"
proof (induction ls rule: lines_text.induct)
  case 1
  show ?case by (simp add: join_lines_def)
next
  case (2 l)
  show ?case by (simp add: join_lines_def)
next
  case (3 l m ls)
  have "join_lines (l # m # ls) = l @ CHR 0x0A # join_lines (m # ls)"
    by (simp add: join_lines_def)
  with 3 show ?case by simp
qed

lemma suffix_by_length: "xs = pre @ suf \<Longrightarrow> suf = drop (length xs - length suf) xs"
  by simp

lemma line_record_no_rule:
  assumes "re_match pat_cols (rstrip l) = None" "re_match pat_pm (rstrip l) = None"
    "re_match pat_fb (rstrip l) = None"
  shows "line_record l = None"
  using assms by (simp add: line_record_def match_line_def Let_def)

text \<open>
  Claim C3. When no line of the captured text matches any of the three patterns, parsing
  fails with the could-not-parse failure, and the text this failure carries shows the last
  40 lines of the captured text (all of them when there are fewer), a newline between two
  neighbours; and the parser never returns an empty table.
\<close>

theorem parse_failure:
  "((\<forall>l \<in> set (splitlines output).
        re_match pat_cols (rstrip l) = None \<and> re_match pat_pm (rstrip l) = None
        \<and> re_match pat_fb (rstrip l) = None) \<longrightarrow>
      (\<exists>pre suf. splitlines output = pre @ suf
         \<and> length suf = min 40 (length (splitlines output))
         \<and> parse_ratings output = Inl (CouldNotParse (lines_text suf))))
   \<and> parse_ratings output \<noteq> Inr []"
proof
  show "(\<forall>l \<in> set (splitlines output).
        re_match pat_cols (rstrip l) = None \<and> re_match pat_pm (rstrip l) = None
        \<and> re_match pat_fb (rstrip l) = None) \<longrightarrow>
      (\<exists>pre suf. splitlines output = pre @ suf
         \<and> length suf = min 40 (length (splitlines output))
         \<and> parse_ratings output = Inl (CouldNotParse (lines_text suf)))"
  proof
    let ?ls = "splitlines output"
    assume h: "\<forall>l \<in> set ?ls.
        re_match pat_cols (rstrip l) = None \<and> re_match pat_pm (rstrip l) = None
        \<and> re_match pat_fb (rstrip l) = None"
    have "scanned_records output = []"
      unfolding scanned_records_def
    proof (rule map_filter_all_None)
      fix l assume "l \<in> set (scanned_lines output)"
      then have "l \<in> set ?ls"
        unfolding scanned_lines_def by (rule in_set_dropD)
      with h show "line_record l = None" by (simp add: line_record_no_rule)
    qed
    then have p: "parse_ratings output =
        Inl (CouldNotParse (lines_text (drop (length ?ls - 40) ?ls)))"
      by (simp add: parse_ratings_eq tail_lines_def join_lines_text)
    have "?ls = take (length ?ls - 40) ?ls @ drop (length ?ls - 40) ?ls" by simp
    moreover have "length (drop (length ?ls - 40) ?ls) = min 40 (length ?ls)" by simp
    ultimately show "\<exists>pre suf. ?ls = pre @ suf \<and> length suf = min 40 (length ?ls)
        \<and> parse_ratings output = Inl (CouldNotParse (lines_text suf))"
      using p by blast
  qed
  show "parse_ratings output \<noteq> Inr []"
    by (simp add: parse_ratings_eq assign_all_empty_iff)
qed

theorem parse_failure_witness:
  "parse_ratings ''first\<newline>a01\<newline>a02\<newline>a03\<newline>a04\<newline>a05\<newline>a06\<newline>a07\<newline>a08\<newline>a09\<newline>a10\<newline>a11\<newline>a12\<newline>a13\<newline>a14\<newline>a15\<newline>a16\<newline>a17\<newline>a18\<newline>a19\<newline>a20\<newline>a21\<newline>a22\<newline>a23\<newline>a24\<newline>a25\<newline>a26\<newline>a27\<newline>a28\<newline>a29\<newline>a30\<newline>a31\<newline>a32\<newline>a33\<newline>a34\<newline>a35\<newline>a36\<newline>a37\<newline>a38\<newline>a39\<newline>a40''
     = Inl (CouldNotParse ''a01\<newline>a02\<newline>a03\<newline>a04\<newline>a05\<newline>a06\<newline>a07\<newline>a08\<newline>a09\<newline>a10\<newline>a11\<newline>a12\<newline>a13\<newline>a14\<newline>a15\<newline>a16\<newline>a17\<newline>a18\<newline>a19\<newline>a20\<newline>a21\<newline>a22\<newline>a23\<newline>a24\<newline>a25\<newline>a26\<newline>a27\<newline>a28\<newline>a29\<newline>a30\<newline>a31\<newline>a32\<newline>a33\<newline>a34\<newline>a35\<newline>a36\<newline>a37\<newline>a38\<newline>a39\<newline>a40'')
   \<and> parse_ratings (''hello'' @ [CHR 0x0D, CHR 0x0A] @ ''world'' @ [CHR 0x0A])
       = Inl (CouldNotParse ''hello\<newline>world'')"
proof (rule conjI)
  let ?X = "''first\<newline>a01\<newline>a02\<newline>a03\<newline>a04\<newline>a05\<newline>a06\<newline>a07\<newline>a08\<newline>a09\<newline>a10\<newline>a11\<newline>a12\<newline>a13\<newline>a14\<newline>a15\<newline>a16\<newline>a17\<newline>a18\<newline>a19\<newline>a20\<newline>a21\<newline>a22\<newline>a23\<newline>a24\<newline>a25\<newline>a26\<newline>a27\<newline>a28\<newline>a29\<newline>a30\<newline>a31\<newline>a32\<newline>a33\<newline>a34\<newline>a35\<newline>a36\<newline>a37\<newline>a38\<newline>a39\<newline>a40''"
  let ?L = "[''first'', ''a01'', ''a02'', ''a03'', ''a04'', ''a05'', ''a06'', ''a07'', ''a08'', ''a09'', ''a10'', ''a11'', ''a12'', ''a13'', ''a14'', ''a15'', ''a16'', ''a17'', ''a18'', ''a19'', ''a20'', ''a21'', ''a22'', ''a23'', ''a24'', ''a25'', ''a26'', ''a27'', ''a28'', ''a29'', ''a30'', ''a31'', ''a32'', ''a33'', ''a34'', ''a35'', ''a36'', ''a37'', ''a38'', ''a39'', ''a40'']"
  have ls: "splitlines ?X = ?L" by code_simp
  have h: "\<forall>l \<in> set (splitlines ?X).
      re_match pat_cols (rstrip l) = None \<and> re_match pat_pm (rstrip l) = None
      \<and> re_match pat_fb (rstrip l) = None"
    unfolding ls by code_simp
  from parse_failure [of ?X] h obtain pre suf where
    e: "splitlines ?X = pre @ suf" and n: "length suf = min 40 (length (splitlines ?X))"
    and p: "parse_ratings ?X = Inl (CouldNotParse (lines_text suf))"
    by blast
  from suffix_by_length [OF e] n have "suf = drop 1 ?L" unfolding ls by simp
  then have "lines_text suf = ''a01\<newline>a02\<newline>a03\<newline>a04\<newline>a05\<newline>a06\<newline>a07\<newline>a08\<newline>a09\<newline>a10\<newline>a11\<newline>a12\<newline>a13\<newline>a14\<newline>a15\<newline>a16\<newline>a17\<newline>a18\<newline>a19\<newline>a20\<newline>a21\<newline>a22\<newline>a23\<newline>a24\<newline>a25\<newline>a26\<newline>a27\<newline>a28\<newline>a29\<newline>a30\<newline>a31\<newline>a32\<newline>a33\<newline>a34\<newline>a35\<newline>a36\<newline>a37\<newline>a38\<newline>a39\<newline>a40''"
    by simp
  with p show "parse_ratings ?X = Inl (CouldNotParse ''a01\<newline>a02\<newline>a03\<newline>a04\<newline>a05\<newline>a06\<newline>a07\<newline>a08\<newline>a09\<newline>a10\<newline>a11\<newline>a12\<newline>a13\<newline>a14\<newline>a15\<newline>a16\<newline>a17\<newline>a18\<newline>a19\<newline>a20\<newline>a21\<newline>a22\<newline>a23\<newline>a24\<newline>a25\<newline>a26\<newline>a27\<newline>a28\<newline>a29\<newline>a30\<newline>a31\<newline>a32\<newline>a33\<newline>a34\<newline>a35\<newline>a36\<newline>a37\<newline>a38\<newline>a39\<newline>a40'')" by simp
next
  let ?Y = "''hello'' @ [CHR 0x0D, CHR 0x0A] @ ''world'' @ [CHR 0x0A]"
  have ls: "splitlines ?Y = [''hello'', ''world'']" by code_simp
  have h: "\<forall>l \<in> set (splitlines ?Y).
      re_match pat_cols (rstrip l) = None \<and> re_match pat_pm (rstrip l) = None
      \<and> re_match pat_fb (rstrip l) = None"
    unfolding ls by code_simp
  from parse_failure [of ?Y] h obtain pre suf where
    e: "splitlines ?Y = pre @ suf" and n: "length suf = min 40 (length (splitlines ?Y))"
    and p: "parse_ratings ?Y = Inl (CouldNotParse (lines_text suf))"
    by blast
  from suffix_by_length [OF e] n have "suf = [''hello'', ''world'']" unfolding ls by simp
  with p show "parse_ratings ?Y = Inl (CouldNotParse ''hello\<newline>world'')" by simp
qed

lemma filter_key_distinct:
  "distinct (map fst t) \<Longrightarrow> (n, v) \<in> set t \<Longrightarrow> filter (\<lambda>p. fst p = n) t = [(n, v)]"
proof (induction t)
  case Nil
  then show ?case by simp
next
  case (Cons x t)
  show ?case
  proof (cases "x = (n, v)")
    case True
    from Cons.prems(1) True have "n \<notin> fst ` set t" by simp
    then have "filter (\<lambda>p. fst p = n) t = []"
      by (auto simp: filter_empty_conv)
    with True show ?thesis by simp
  next
    case False
    with Cons.prems have in_t: "(n, v) \<in> set t" by simp
    then have "n \<in> fst ` set t" by force
    with Cons.prems(1) have "fst x \<noteq> n" by auto
    moreover from Cons.IH Cons.prems(1) in_t have "filter (\<lambda>p. fst p = n) t = [(n, v)]" by simp
    ultimately show ?thesis by simp
  qed
qed

text \<open>
  Claim C7. Whenever the visited lines yield a name, once or several times, parsing
  succeeds, and the table has exactly one record of this name: the record of the last
  visited line that yields it.
\<close>

theorem last_write_wins:
  assumes "scanned_records output = pre @ (n, v) # post" and "n \<notin> fst ` set post"
  shows "\<exists>t. parse_ratings output = Inr t \<and> distinct (map fst t)
           \<and> filter (\<lambda>p. fst p = n) t = [(n, v)]"
proof -
  let ?t = "assign_all [] (scanned_records output)"
  from assms(1) have "scanned_records output \<noteq> []" by simp
  then have p: "parse_ratings output = Inr ?t" by (simp add: parse_ratings_eq)
  have d: "distinct (map fst ?t)" by (rule distinct_assign_all) simp
  have "map_of (rev (scanned_records output)) n = Some v"
    unfolding map_of_rev_last using assms by blast
  then have "map_of ?t n = Some v"
    unfolding map_of_assign_all by simp
  then have "(n, v) \<in> set ?t" by (rule map_of_SomeD)
  with d have "filter (\<lambda>p. fst p = n) ?t = [(n, v)]" by (rule filter_key_distinct)
  with p d show ?thesis by blast
qed

theorem last_write_wins_witness:
  "scanned_records ''EngineA 10 5\<newline>EngineA 20 3''
     = [(''EngineA'', 10, 5), (''EngineA'', 20, 3)]
   \<and> parse_ratings ''EngineA 10 5\<newline>EngineA 20 3'' = Inr [(''EngineA'', 20, 3)]
   \<and> (\<exists>t. parse_ratings ''EngineA 10 5\<newline>EngineA 20 3'' = Inr t \<and> distinct (map fst t)
           \<and> filter (\<lambda>p. fst p = ''EngineA'') t = [(''EngineA'', 20, 3)])"
proof -
  let ?X = "''EngineA 10 5\<newline>EngineA 20 3''"
  have r: "scanned_records ?X = [(''EngineA'', 10, 5)] @ (''EngineA'', 20, 3) # []" by code_simp
  have n: "''EngineA'' \<notin> fst ` set ([] :: ratings)" by simp
  have p: "parse_ratings ?X = Inr [(''EngineA'', 20, 3)]" by code_simp
  from last_write_wins [OF r n] r p show ?thesis by simp
qed

lemma rule_record_None:
  "table_pattern r \<Longrightarrow> rule_record r s = None \<longleftrightarrow> re_match r s = None"
  using re_match_record [of r s] by (cases "re_match r s") (auto simp: rule_record_def)

lemma line_record_first_match:
  "line_record l =
     (if strip (rstrip l) = [] then None
      else (case rule_record pat_cols (rstrip l) of
              Some r \<Rightarrow> Some r
            | None \<Rightarrow> (case rule_record pat_pm (rstrip l) of
                         Some r \<Rightarrow> Some r
                       | None \<Rightarrow> rule_record pat_fb (rstrip l))))"
proof (cases "strip (rstrip l) = []")
  case True
  then show ?thesis by (simp add: line_record_def)
next
  case False
  show ?thesis
  proof (cases "re_match pat_cols (rstrip l)")
    case (Some m)
    from re_match_record [OF table_pattern_cols Some] obtain rec where "record_of m = Some rec"
      by blast
    with False Some show ?thesis
      by (simp add: line_record_def match_line_def rule_record_def)
  next
    case None
    note A = None
    show ?thesis
    proof (cases "re_match pat_pm (rstrip l)")
      case (Some m)
      from re_match_record [OF table_pattern_pm Some] obtain rec where "record_of m = Some rec"
        by blast
      with False A Some show ?thesis
        by (simp add: line_record_def match_line_def rule_record_def)
    next
      case None
      with False A show ?thesis
        by (simp add: line_record_def match_line_def rule_record_def)
    qed
  qed
qed

lemma take_prefix_iff: "take (length p) s = p \<longleftrightarrow> (\<exists>b. s = p @ b)"
proof
  assume "take (length p) s = p"
  then have "s = p @ drop (length p) s" by (metis append_take_drop_id)
  then show "\<exists>b. s = p @ b" ..
next
  assume "\<exists>b. s = p @ b"
  then show "take (length p) s = p" by auto
qed

lemma contains_iff: "contains p s \<longleftrightarrow> (\<exists>a b. s = a @ p @ b)"
proof (induction s)
  case Nil
  show ?case by auto
next
  case (Cons c cs)
  have "(\<exists>a b. c # cs = a @ p @ b) \<longleftrightarrow> (\<exists>b. c # cs = p @ b) \<or> (\<exists>a b. cs = a @ p @ b)"
  proof
    assume "\<exists>a b. c # cs = a @ p @ b"
    then obtain a b where e: "c # cs = a @ p @ b" by blast
    show "(\<exists>b. c # cs = p @ b) \<or> (\<exists>a b. cs = a @ p @ b)"
    proof (cases a)
      case Nil
      with e show ?thesis by auto
    next
      case (Cons x a')
      with e have "cs = a' @ p @ b" by simp
      then show ?thesis by blast
    qed
  next
    assume "(\<exists>b. c # cs = p @ b) \<or> (\<exists>a b. cs = a @ p @ b)"
    then show "\<exists>a b. c # cs = a @ p @ b"
    proof
      assume "\<exists>b. c # cs = p @ b"
      then obtain b where "c # cs = [] @ p @ b" by auto
      then show ?thesis by blast
    next
      assume "\<exists>a b. cs = a @ p @ b"
      then obtain a b where "cs = a @ p @ b" by blast
      then have "c # cs = (c # a) @ p @ b" by simp
      then show ?thesis by blast
    qed
  qed
  with Cons.IH show ?case by (simp add: take_prefix_iff del: take_Suc_Cons)
qed

lemma has_header_iff:
  "has_header l \<longleftrightarrow> (\<exists>a b. l = a @ ''Name'' @ b) \<and> (\<exists>a b. l = a @ ''Elo'' @ b)"
  unfolding has_header_def contains_iff ..

lemma find_start_no_header: "(\<forall>x \<in> set ls. \<not> has_header x) \<Longrightarrow> find_start i ls = 0"
  by (induction ls arbitrary: i) simp_all

lemma find_start_first_header:
  "(\<forall>x \<in> set pre. \<not> has_header x) \<Longrightarrow> has_header h \<Longrightarrow>
     find_start i (pre @ h # post) = i + length pre + 1"
  by (induction pre arbitrary: i) simp_all

lemma scanned_lines_no_header:
  "(\<forall>x \<in> set (splitlines output). \<not> has_header x) \<Longrightarrow> scanned_lines output = splitlines output"
  by (simp add: scanned_lines_def find_start_no_header)

lemma scanned_lines_after_header:
  assumes "splitlines output = pre @ h # post" "\<forall>x \<in> set pre. \<not> has_header x" "has_header h"
  shows "scanned_lines output = post"
  unfolding scanned_lines_def assms(1) find_start_first_header [OF assms(2,3)] by simp

lemma rule_record_matched:
  assumes "table_pattern pat" "re_match pat s = Some m"
  shows "\<exists>e u. float_of (group m 2) = Some e \<and> float_of (group m 3) = Some u
           \<and> rule_record pat s = Some (strip (group m 1), e, u)"
proof -
  from re_match_record [OF assms] obtain e u where
    r: "record_of m = Some (strip (group m 1), e, u)" by blast
  then have "float_of (group m 2) = Some e" "float_of (group m 3) = Some u"
    by (auto simp: record_of_def split: option.splits)
  with r assms(2) show ?thesis by (simp add: rule_record_def)
qed

text \<open>
  Claim C2. The loop starts after the first line that contains both \<^verbatim>\<open>Name\<close> and
  \<^verbatim>\<open>Elo\<close>, or at the first line when there is no such line. For each line from there on
  that is not blank it tries pattern A, then B, then the fallback; the first pattern that
  matches gives the record (the stripped first group as the name, the second and third
  group as numbers), and the table is built by assigning these records in line order. The
  line \<^verbatim>\<open>1  EngineA  120  35\<close> gives its record by pattern A, the line
  \<^verbatim>\<open>EngineB : 85.5 +/- 12.0\<close> by pattern B, which pattern A does not match.
\<close>

theorem rules_in_order:
  "(has_header l \<longleftrightarrow> (\<exists>a b. l = a @ ''Name'' @ b) \<and> (\<exists>a b. l = a @ ''Elo'' @ b))
   \<and> ((\<forall>x \<in> set (splitlines output). \<not> has_header x) \<longrightarrow>
        scanned_lines output = splitlines output)
   \<and> (\<forall>pre h post.
        splitlines output = pre @ h # post \<and> (\<forall>x \<in> set pre. \<not> has_header x) \<and> has_header h \<longrightarrow>
        scanned_lines output = post)
   \<and> (List.map_filter line_record (scanned_lines output) \<noteq> [] \<longrightarrow>
        parse_ratings output =
          Inr (foldl (\<lambda>d (n, v). AList.update n v d) []
                 (List.map_filter line_record (scanned_lines output))))
   \<and> line_record l =
       (if strip (rstrip l) = [] then None
        else (case rule_record pat_cols (rstrip l) of
                Some r \<Rightarrow> Some r
              | None \<Rightarrow> (case rule_record pat_pm (rstrip l) of
                           Some r \<Rightarrow> Some r
                         | None \<Rightarrow> rule_record pat_fb (rstrip l))))
   \<and> (\<forall>pat \<in> {pat_cols, pat_pm, pat_fb}.
        (re_match pat s = None \<longrightarrow> rule_record pat s = None) \<and>
        (\<forall>m. re_match pat s = Some m \<longrightarrow>
           (\<exists>e u. float_of (group m 2) = Some e \<and> float_of (group m 3) = Some u
              \<and> rule_record pat s = Some (strip (group m 1), e, u))))
   \<and> re_match pat_cols ''1  EngineA  120  35'' = Some [(3, ''35''), (2, ''120''), (1, ''EngineA'')]
   \<and> parse_ratings ''1  EngineA  120  35'' = Inr [(''EngineA'', 120, 35)]
   \<and> re_match pat_cols ''EngineB : 85.5 +/- 12.0'' = None
   \<and> re_match pat_pm ''EngineB : 85.5 +/- 12.0'' = Some [(3, ''12.0''), (2, ''85.5''), (1, ''EngineB'')]
   \<and> parse_ratings ''EngineB : 85.5 +/- 12.0'' = Inr [(''EngineB'', 85.5, 12)]"
proof (intro conjI)
  show "has_header l \<longleftrightarrow> (\<exists>a b. l = a @ ''Name'' @ b) \<and> (\<exists>a b. l = a @ ''Elo'' @ b)"
    by (rule has_header_iff)
  show "(\<forall>x \<in> set (splitlines output). \<not> has_header x) \<longrightarrow>
        scanned_lines output = splitlines output"
    by (simp add: scanned_lines_no_header)
  show "\<forall>pre h post.
        splitlines output = pre @ h # post \<and> (\<forall>x \<in> set pre. \<not> has_header x) \<and> has_header h \<longrightarrow>
        scanned_lines output = post"
    using scanned_lines_after_header by blast
  show "List.map_filter line_record (scanned_lines output) \<noteq> [] \<longrightarrow>
        parse_ratings output =
          Inr (foldl (\<lambda>d (n, v). AList.update n v d) []
                 (List.map_filter line_record (scanned_lines output)))"
    by (simp add: parse_ratings_eq scanned_records_def assign_all_def)
  show "line_record l =
       (if strip (rstrip l) = [] then None
        else (case rule_record pat_cols (rstrip l) of
                Some r \<Rightarrow> Some r
              | None \<Rightarrow> (case rule_record pat_pm (rstrip l) of
                           Some r \<Rightarrow> Some r
                         | None \<Rightarrow> rule_record pat_fb (rstrip l))))"
    by (rule line_record_first_match)
  show "\<forall>pat \<in> {pat_cols, pat_pm, pat_fb}.
        (re_match pat s = None \<longrightarrow> rule_record pat s = None) \<and>
        (\<forall>m. re_match pat s = Some m \<longrightarrow>
           (\<exists>e u. float_of (group m 2) = Some e \<and> float_of (group m 3) = Some u
              \<and> rule_record pat s = Some (strip (group m 1), e, u)))"
    using rule_record_matched [OF table_pattern_cols, of s]
      rule_record_matched [OF table_pattern_pm, of s]
      rule_record_matched [OF table_pattern_fb, of s]
    by (simp add: rule_record_def)
  show "re_match pat_cols ''1  EngineA  120  35'' = Some [(3, ''35''), (2, ''120''), (1, ''EngineA'')]"
    by code_simp
  show "parse_ratings ''1  EngineA  120  35'' = Inr [(''EngineA'', 120, 35)]"
    by code_simp
  show "re_match pat_cols ''EngineB : 85.5 +/- 12.0'' = None"
    by code_simp
  show "re_match pat_pm ''EngineB : 85.5 +/- 12.0'' = Some [(3, ''12.0''), (2, ''85.5''), (1, ''EngineB'')]"
    by code_simp
  show "parse_ratings ''EngineB : 85.5 +/- 12.0'' = Inr [(''EngineB'', 85.5, 12)]"
    by code_simp
qed

theorem rules_in_order_witness:
  "scanned_lines ''A 1 2\<newline>Name only\<newline>B 3 4\<newline>Rank Name Elo\<newline>1  EngineA  120  35\<newline>Elo Name\<newline>EngineB : 85.5 +/- 12.0\<newline>\<newline>   \<newline>C 5 6''
     = [''1  EngineA  120  35'', ''Elo Name'', ''EngineB : 85.5 +/- 12.0'', [], ''   '', ''C 5 6'']
   \<and> parse_ratings ''A 1 2\<newline>Name only\<newline>B 3 4\<newline>Rank Name Elo\<newline>1  EngineA  120  35\<newline>Elo Name\<newline>EngineB : 85.5 +/- 12.0\<newline>\<newline>   \<newline>C 5 6''
     = Inr [(''EngineA'', 120, 35), (''EngineB'', 85.5, 12), (''C'', 5, 6)]
   \<and> scanned_lines ''EngineA 10 5\<newline>EngineB 20 3'' = [''EngineA 10 5'', ''EngineB 20 3'']
   \<and> parse_ratings ''EngineA 10 5\<newline>EngineB 20 3'' = Inr [(''EngineA'', 10, 5), (''EngineB'', 20, 3)]"
proof -
  let ?X = "''A 1 2\<newline>Name only\<newline>B 3 4\<newline>Rank Name Elo\<newline>1  EngineA  120  35\<newline>Elo Name\<newline>EngineB : 85.5 +/- 12.0\<newline>\<newline>   \<newline>C 5 6''"
  let ?post = "[''1  EngineA  120  35'', ''Elo Name'', ''EngineB : 85.5 +/- 12.0'', [], ''   '', ''C 5 6'']"
  let ?Y = "''EngineA 10 5\<newline>EngineB 20 3''"
  note x = rules_in_order [of _ ?X]
  note y = rules_in_order [of _ ?Y]
  have sl: "splitlines ?X = [''A 1 2'', ''Name only'', ''B 3 4''] @ ''Rank Name Elo'' # ?post"
    by code_simp
  have nh: "\<forall>x \<in> set [''A 1 2'', ''Name only'', ''B 3 4'']. \<not> has_header x" by code_simp
  have hh: "has_header ''Rank Name Elo''" by code_simp
  from x sl nh hh have sc: "scanned_lines ?X = ?post" by blast
  have recs: "List.map_filter line_record ?post
      = [(''EngineA'', 120, 35), (''EngineB'', 85.5, 12), (''C'', 5, 6)]"
    by code_simp
  from x have "List.map_filter line_record (scanned_lines ?X) \<noteq> [] \<longrightarrow>
      parse_ratings ?X = Inr (foldl (\<lambda>d (n, v). AList.update n v d) []
        (List.map_filter line_record (scanned_lines ?X)))"
    by blast
  then have px: "parse_ratings ?X = Inr [(''EngineA'', 120, 35), (''EngineB'', 85.5, 12), (''C'', 5, 6)]"
    unfolding sc recs by simp
  have sly: "splitlines ?Y = [''EngineA 10 5'', ''EngineB 20 3'']" by code_simp
  have nhy: "\<forall>x \<in> set (splitlines ?Y). \<not> has_header x" unfolding sly by code_simp
  from y nhy have scy: "scanned_lines ?Y = [''EngineA 10 5'', ''EngineB 20 3'']"
    unfolding sly by blast
  have recsy: "List.map_filter line_record [''EngineA 10 5'', ''EngineB 20 3'']
      = [(''EngineA'', 10, 5), (''EngineB'', 20, 3)]"
    by code_simp
  from y have "List.map_filter line_record (scanned_lines ?Y) \<noteq> [] \<longrightarrow>
      parse_ratings ?Y = Inr (foldl (\<lambda>d (n, v). AList.update n v d) []
        (List.map_filter line_record (scanned_lines ?Y)))"
    by blast
  then have py: "parse_ratings ?Y = Inr [(''EngineA'', 10, 5), (''EngineB'', 20, 3)]"
    unfolding scy recsy by simp
  from sc px scy py show ?thesis by (intro conjI)
qed

text \<open>
  Claim C6. Every record of a parsed table has a non-empty name, names are unique and the
  uncertainty is not negative. The name fails: the fallback pattern matches a line of three
  blanks and two numbers with a blank as its first group, and the stripped name is empty.
  The other two invariants hold, see \<open>distinct_assign_all\<close> and
  \<open>parse_ratings_uncertainty\<close>.
\<close>

theorem empty_name_record:
  "rule_record pat_cols ''   10 5'' = None
   \<and> rule_record pat_pm ''   10 5'' = None
   \<and> rule_record pat_fb ''   10 5'' = Some ('''', 10, 5)
   \<and> parse_ratings ''   10 5'' = Inr [('''', 10, 5)]"
  by code_simp

lemma set_assign_all: "set (assign_all d recs) \<subseteq> set d \<union> set recs"
proof (induction recs arbitrary: d)
  case Nil
  show ?case by (simp add: assign_all_Nil)
next
  case (Cons r recs)
  obtain n v where r: "r = (n, v)" by (cases r)
  have "set (AList.update n v d) \<subseteq> insert (n, v) (set d)"
    by (induction d) auto
  with Cons.IH [of "AList.update n v d"] show ?case
    unfolding r assign_all_Cons by auto
qed

lemma line_record_uncertainty: "line_record l = Some (n, e, u) \<Longrightarrow> 0 \<le> u"
  using match_line_record [of "rstrip l"]
  by (auto simp: line_record_def Let_def split: if_splits option.splits)

lemma parse_ratings_uncertainty:
  assumes "parse_ratings output = Inr t" "(n, e, u) \<in> set t"
  shows "0 \<le> u"
proof -
  from assms(1) have "t = assign_all [] (scanned_records output)"
    by (simp add: parse_ratings_eq split: if_splits)
  with assms(2) set_assign_all [of "[]" "scanned_records output"]
  have "(n, e, u) \<in> set (scanned_records output)" by auto
  then obtain l where "line_record l = Some (n, e, u)"
    by (auto simp: scanned_records_def List.map_filter_def)
  then show ?thesis by (rule line_record_uncertainty)
qed

section \<open>The normalizer: properties\<close>

lemma sum_list_shift:
  "sum_list (map (\<lambda>x. f x - (c::real)) xs) = sum_list (map f xs) - real (length xs) * c"
  by (induction xs) (simp_all add: algebra_simps)

lemma ratings_of_mean_center:
  "t \<noteq> [] \<Longrightarrow> map (\<lambda>(n, e, s). e) (mean_center t) =
     map (\<lambda>x. (\<lambda>(n, e, s). e) x - arithmetic_mean (map (\<lambda>(n, e, s). e) t)) t"
  by (simp add: mean_center_def arithmetic_mean_def Let_def split_def)

lemma sum_mean_center:
  assumes "t \<noteq> []"
  shows "sum_list (map (\<lambda>(n, e, s). e) (mean_center t)) = 0"
proof -
  from assms have "real (length t) \<noteq> 0" by simp
  then show ?thesis
    unfolding ratings_of_mean_center [OF assms] sum_list_shift arithmetic_mean_def
    by simp
qed

text \<open>
  Claim C8. The normalizer returns the empty table unchanged.
\<close>

theorem mean_center_empty: "mean_center [] = []"
  by (simp add: mean_center_def)

text \<open>
  Claim C10. Under exact arithmetic mean-centering is idempotent.
\<close>

theorem mean_center_idempotent: "mean_center (mean_center t) = mean_center t"
proof (cases "t = []")
  case True
  then show ?thesis by (simp add: mean_center_def)
next
  case False
  let ?c = "mean_center t"
  from False have ne: "?c \<noteq> []" by (simp add: mean_center_def Let_def)
  have "sum_list (map (\<lambda>(n, e, s). e) ?c) = 0" by (rule sum_mean_center [OF False])
  then have "mean_center ?c = map (\<lambda>(n, e, s). (n, e - 0, s)) ?c"
    using ne by (simp add: mean_center_def [of ?c])
  also have "\<dots> = ?c" by (simp add: split_def)
  finally show ?thesis .
qed

section \<open>The report: properties\<close>

lemma sorted_reverse_desc: "sorted_wrt (\<lambda>a b. key a \<ge> key b) (sorted_reverse key xs)"
proof -
  have "sorted (map key (sort_key key (rev xs)))" by simp
  then have "sorted_wrt (\<lambda>a b. key a \<le> key b) (sort_key key (rev xs))"
    by (simp add: sorted_map)
  then show ?thesis by (simp add: sorted_reverse_def sorted_wrt_rev)
qed

lemma sorted_reverse_stable:
  "filter (\<lambda>x. key x = k) (sorted_reverse key xs) = filter (\<lambda>x. key x = k) xs"
  by (simp add: sorted_reverse_def rev_filter [symmetric] sort_key_stable)

lemma mset_sorted_reverse: "mset (sorted_reverse key xs) = mset xs"
  by (simp add: sorted_reverse_def)

lemma elo_row_of: "elo (row_of kv) = fst (snd kv)"
  by (simp add: row_of_def split_def)

text \<open>
  Claim C4. The rows of the report are the rows of the normalized table, sorted by
  descending delta; the rows of any one delta keep the order they have in the table.
\<close>

theorem make_rows_sorted_stable:
  "sorted_wrt (\<lambda>a b. elo a \<ge> elo b) (make_rows t)
   \<and> (\<forall>d. filter (\<lambda>r. elo r = d) (make_rows t) = filter (\<lambda>r. elo r = d) (map row_of t))
   \<and> mset (make_rows t) = mset (map row_of t)"
proof (intro conjI allI)
  have "sorted_wrt (\<lambda>a b. fst (snd a) \<ge> fst (snd b)) (sorted_reverse (\<lambda>kv. fst (snd kv)) t)"
    by (rule sorted_reverse_desc)
  then show "sorted_wrt (\<lambda>a b. elo a \<ge> elo b) (make_rows t)"
    by (simp add: make_rows_def sorted_wrt_map elo_row_of)
next
  fix d
  show "filter (\<lambda>r. elo r = d) (make_rows t) = filter (\<lambda>r. elo r = d) (map row_of t)"
    by (simp add: make_rows_def filter_map comp_def elo_row_of sorted_reverse_stable)
next
  show "mset (make_rows t) = mset (map row_of t)"
    by (simp add: make_rows_def mset_sorted_reverse)
qed

lemma name_row_of: "name (row_of (n, e, s)) = n"
  by (simp add: row_of_def)

lemma set_make_rows: "set (make_rows rel) = row_of ` set rel"
proof -
  have "mset (make_rows rel) = mset (map row_of rel)"
    by (simp add: make_rows_def mset_sorted_reverse)
  then have "set_mset (mset (make_rows rel)) = set_mset (mset (map row_of rel))" by simp
  then show ?thesis by simp
qed

lemma name_row_of_fst: "name (row_of kv) = fst kv"
  by (cases kv) (simp add: row_of_def)

lemma names_make_rows: "mset (map name (make_rows rel)) = mset (map fst rel)"
proof -
  have "map name (make_rows rel) = map fst (sorted_reverse (\<lambda>kv. fst (snd kv)) rel)"
    by (simp add: make_rows_def name_row_of_fst)
  then have "mset (map name (make_rows rel)) =
      image_mset fst (mset (sorted_reverse (\<lambda>kv. fst (snd kv)) rel))"
    by simp
  then show ?thesis by (simp add: mset_sorted_reverse)
qed

lemma find_absent:
  assumes "target \<notin> fst ` set rel"
  shows "find (\<lambda>r. name r = target) (make_rows rel) = None"
proof -
  have "\<not> (\<exists>r. r \<in> set (make_rows rel) \<and> name r = target)"
  proof
    assume "\<exists>r. r \<in> set (make_rows rel) \<and> name r = target"
    then obtain kv where "kv \<in> set rel" "name (row_of kv) = target"
      unfolding set_make_rows by blast
    then have "fst kv = target" "kv \<in> set rel" by (simp_all add: name_row_of_fst)
    then have "target \<in> fst ` set rel" by blast
    with assms show False by contradiction
  qed
  then show ?thesis by (simp add: find_None_iff)
qed

lemma find_present:
  assumes "distinct (map fst rel)" "(target, e, s) \<in> set rel"
  shows "find (\<lambda>r. name r = target) (make_rows rel) = Some \<lparr>name = target, elo = e, sigma = s\<rparr>"
proof -
  have "row_of (target, e, s) \<in> set (make_rows rel)"
    unfolding set_make_rows using assms(2) by blast
  then have "find (\<lambda>r. name r = target) (make_rows rel) \<noteq> None"
    by (auto simp: find_None_iff name_row_of)
  then obtain r where f: "find (\<lambda>r. name r = target) (make_rows rel) = Some r" by blast
  then have "name r = target" and "r \<in> set (make_rows rel)"
    by (auto simp: find_Some_iff in_set_conv_nth)
  then obtain kv where kv: "kv \<in> set rel" "r = row_of kv" unfolding set_make_rows by blast
  obtain n e' s' where k: "kv = (n, e', s')" by (cases kv)
  with kv \<open>name r = target\<close> have "n = target" by (simp add: name_row_of)
  with kv k have "(target, e', s') \<in> set rel" by simp
  with assms have "(e', s') = (e, s)" by (meson eq_key_imp_eq_value)
  with kv k \<open>n = target\<close> have "r = \<lparr>name = target, elo = e, sigma = s\<rparr>"
    by (simp add: row_of_def)
  with f show ?thesis by simp
qed

text \<open>
  Claim C5, amended. For a normalized table (its names are distinct) and a target name that
  is given and not empty: when no row has the target as its name, assembling fails with the
  engine-not-found failure, which carries the names of all rows; otherwise the report holds
  the one row of that name, with the same version, mode and source path as the full report
  and a notes field with a shorter disclaimer. The empty target name is treated like no
  target: the full report is produced.
\<close>

theorem engine_filter:
  assumes "distinct (map fst rel)"
  shows "assemble path None rel =
            Inr \<lparr>version = ''0'', mode = ''relative-only'', pgn = path,
                 body = Ratings (make_rows rel),
                 notes_text = ''Relative Elo, mean-centered; not calibrated to any external scale.''\<rparr>
       \<and> assemble path (Some []) rel = assemble path None rel
       \<and> (target \<noteq> [] \<and> target \<notin> fst ` set rel \<longrightarrow>
            assemble path (Some target) rel = Inl (EngineNotFound target (map name (make_rows rel))))
       \<and> mset (map name (make_rows rel)) = mset (map fst rel)
       \<and> (\<forall>e s. target \<noteq> [] \<and> (target, e, s) \<in> set rel \<longrightarrow>
            assemble path (Some target) rel =
              Inr \<lparr>version = ''0'', mode = ''relative-only'', pgn = path,
                   body = Engine \<lparr>name = target, elo = e, sigma = s\<rparr>,
                   notes_text = ''Relative Elo, mean-centered; not calibrated.''\<rparr>)"
proof (intro conjI impI allI)
  show "assemble path None rel =
      Inr \<lparr>version = ''0'', mode = ''relative-only'', pgn = path,
           body = Ratings (make_rows rel),
           notes_text = ''Relative Elo, mean-centered; not calibrated to any external scale.''\<rparr>"
    by (simp add: assemble_def Let_def)
next
  show "assemble path (Some []) rel = assemble path None rel"
    by (simp add: assemble_def Let_def)
next
  assume "target \<noteq> [] \<and> target \<notin> fst ` set rel"
  then have t: "target \<noteq> []" and a: "target \<notin> fst ` set rel" by simp_all
  from find_absent [OF a] t
  show "assemble path (Some target) rel = Inl (EngineNotFound target (map name (make_rows rel)))"
    by (simp add: assemble_def Let_def)
next
  show "mset (map name (make_rows rel)) = mset (map fst rel)" by (rule names_make_rows)
next
  fix e s assume "target \<noteq> [] \<and> (target, e, s) \<in> set rel"
  then have t: "target \<noteq> []" and i: "(target, e, s) \<in> set rel" by simp_all
  from find_present [OF assms i] t
  show "assemble path (Some target) rel =
      Inr \<lparr>version = ''0'', mode = ''relative-only'', pgn = path,
           body = Engine \<lparr>name = target, elo = e, sigma = s\<rparr>,
           notes_text = ''Relative Elo, mean-centered; not calibrated.''\<rparr>"
    by (simp add: assemble_def Let_def)
qed

lemma make_rows_example:
  "make_rows [(''A'', 10, 5), ([], 0, 2), (''B'', - 10, 7)] =
     [\<lparr>name = ''A'', elo = 10, sigma = 5\<rparr>, \<lparr>name = [], elo = 0, sigma = 2\<rparr>,
      \<lparr>name = ''B'', elo = - 10, sigma = 7\<rparr>]"
  by (simp add: make_rows_def sorted_reverse_def row_of_def)

theorem engine_filter_witness:
  "assemble ''g.pgn'' (Some ''C'') [(''A'', 10, 5), ([], 0, 2), (''B'', - 10, 7)]
     = Inl (EngineNotFound ''C'' [''A'', [], ''B''])
   \<and> assemble ''g.pgn'' (Some ''B'') [(''A'', 10, 5), ([], 0, 2), (''B'', - 10, 7)]
     = Inr \<lparr>version = ''0'', mode = ''relative-only'', pgn = ''g.pgn'',
            body = Engine \<lparr>name = ''B'', elo = - 10, sigma = 7\<rparr>,
            notes_text = ''Relative Elo, mean-centered; not calibrated.''\<rparr>
   \<and> assemble ''g.pgn'' (Some []) [(''A'', 10, 5), ([], 0, 2), (''B'', - 10, 7)]
     = Inr \<lparr>version = ''0'', mode = ''relative-only'', pgn = ''g.pgn'',
            body = Ratings [\<lparr>name = ''A'', elo = 10, sigma = 5\<rparr>,
                            \<lparr>name = [], elo = 0, sigma = 2\<rparr>,
                            \<lparr>name = ''B'', elo = - 10, sigma = 7\<rparr>],
            notes_text = ''Relative Elo, mean-centered; not calibrated to any external scale.''\<rparr>"
proof -
  let ?rel = "[(''A'', 10, 5), ([], 0, 2), (''B'', - 10, 7)] :: ratings"
  have d: "distinct (map fst ?rel)" by simp
  have nc: "''C'' \<noteq> [] \<and> ''C'' \<notin> fst ` set ?rel" by simp
  have ib: "''B'' \<noteq> [] \<and> (''B'', - 10, 7) \<in> set ?rel" by simp
  note c = engine_filter [OF d, of "''g.pgn''" "''C''"]
  note b = engine_filter [OF d, of "''g.pgn''" "''B''"]
  from c nc
  have "assemble ''g.pgn'' (Some ''C'') ?rel = Inl (EngineNotFound ''C'' (map name (make_rows ?rel)))"
    by blast
  then have 1: "assemble ''g.pgn'' (Some ''C'') ?rel = Inl (EngineNotFound ''C'' [''A'', [], ''B''])"
    by (simp add: make_rows_example)
  from b ib
  have 2: "assemble ''g.pgn'' (Some ''B'') ?rel
     = Inr \<lparr>version = ''0'', mode = ''relative-only'', pgn = ''g.pgn'',
            body = Engine \<lparr>name = ''B'', elo = - 10, sigma = 7\<rparr>,
            notes_text = ''Relative Elo, mean-centered; not calibrated.''\<rparr>"
    by blast
  from c have "assemble ''g.pgn'' (Some []) ?rel =
      Inr \<lparr>version = ''0'', mode = ''relative-only'', pgn = ''g.pgn'',
           body = Ratings (make_rows ?rel),
           notes_text = ''Relative Elo, mean-centered; not calibrated to any external scale.''\<rparr>"
    by simp
  then have 3: "assemble ''g.pgn'' (Some []) ?rel
     = Inr \<lparr>version = ''0'', mode = ''relative-only'', pgn = ''g.pgn'',
            body = Ratings [\<lparr>name = ''A'', elo = 10, sigma = 5\<rparr>,
                            \<lparr>name = [], elo = 0, sigma = 2\<rparr>,
                            \<lparr>name = ''B'', elo = - 10, sigma = 7\<rparr>],
            notes_text = ''Relative Elo, mean-centered; not calibrated to any external scale.''\<rparr>"
    by (simp add: make_rows_example)
  from 1 2 3 show ?thesis by (intro conjI)
qed

text \<open>
  Claim C5 as stated speaks of every supplied target name. The empty name is treated like
  no name: no row is named by it here, and the full report is produced, not a failure.
\<close>

theorem empty_target_not_filtered:
  "[] \<notin> fst ` set [(''A'', 0 :: real, 5 :: real)]
   \<and> assemble ''g.pgn'' (Some []) [(''A'', 0, 5)]
     = Inr \<lparr>version = ''0'', mode = ''relative-only'', pgn = ''g.pgn'',
            body = Ratings [\<lparr>name = ''A'', elo = 0, sigma = 5\<rparr>],
            notes_text = ''Relative Elo, mean-centered; not calibrated to any external scale.''\<rparr>"
  by (simp add: assemble_def make_rows_def sorted_reverse_def row_of_def)

section \<open>The program: properties\<close>

lemma assemble_failure:
  "assemble path engine_name rel = Inl e \<Longrightarrow>
     \<exists>target. engine_name = Some target \<and> e = EngineNotFound target (map name (make_rows rel))"
  by (auto simp: assemble_def Let_def split: option.splits if_splits)

lemma main_cases:
  "main w a = (case pipeline w a of
                 Inl msg \<Rightarrow> \<lparr>stdout = None, stderr = Some msg, exit_status = 1\<rparr>
               | Inr payload \<Rightarrow> \<lparr>stdout = Some payload, stderr = None, exit_status = 0\<rparr>)"
  by (simp add: main_def die_def split: sum.splits)

text \<open>
  Claim C9. The program prints a report exactly when it exits with status 0, and a
  diagnostic on the error channel exactly when it exits with another status; never both,
  and never neither. Each failure (a missing results log or an unusable backend binary, a
  backend that cannot be started or exits with an error, a text without any rating row, a
  target name that no row has) ends the program through \<^verbatim>\<open>die\<close>: its message on the
  error channel, status 1, nothing on the output channel.
\<close>

theorem main_all_or_nothing:
  "(stdout (main w a) \<noteq> None \<longleftrightarrow> exit_status (main w a) = 0)
   \<and> (stderr (main w a) \<noteq> None \<longleftrightarrow> exit_status (main w a) \<noteq> 0)
   \<and> (stdout (main w a) = None \<longleftrightarrow> stderr (main w a) \<noteq> None)
   \<and> die msg = \<lparr>stdout = None, stderr = Some msg, exit_status = 1\<rparr>
   \<and> (\<not> isfile w (arg_pgn a) \<longrightarrow> main w a = die (PgnNotFound (arg_pgn a)))
   \<and> (isfile w (arg_pgn a) \<and> \<not> (isfile w (arg_bayeselo a) \<and> executable w (arg_bayeselo a)) \<longrightarrow>
        main w a = die (BayesEloNotExecutable (arg_bayeselo a)))
   \<and> (inputs_ok w a \<longrightarrow>
        (case popen w (arg_bayeselo a) (session_script (arg_pgn a)) of
           NoSuchFile \<Rightarrow> main w a = die (BayesEloNotFound (arg_bayeselo a))
         | Exited returncode out \<Rightarrow>
             if returncode \<noteq> 0 then main w a = die (BayesEloFailed returncode out)
             else (case parse_ratings out of
                     Inl e \<Rightarrow> main w a = die (CouldNotParse (tail_lines out))
                   | Inr raw \<Rightarrow>
                       (case assemble (arg_pgn a) (arg_engine_name a) (mean_center raw) of
                          Inl e \<Rightarrow> main w a = die e \<and>
                            (\<exists>target. e = EngineNotFound target (map name (make_rows (mean_center raw))))
                        | Inr payload \<Rightarrow>
                            main w a = \<lparr>stdout = Some payload, stderr = None, exit_status = 0\<rparr>))))"
proof (intro conjI impI)
  show "stdout (main w a) \<noteq> None \<longleftrightarrow> exit_status (main w a) = 0"
    by (simp add: main_cases split: sum.splits)
  show "stderr (main w a) \<noteq> None \<longleftrightarrow> exit_status (main w a) \<noteq> 0"
    by (simp add: main_cases split: sum.splits)
  show "stdout (main w a) = None \<longleftrightarrow> stderr (main w a) \<noteq> None"
    by (simp add: main_cases split: sum.splits)
  show "die msg = \<lparr>stdout = None, stderr = Some msg, exit_status = 1\<rparr>"
    by (simp add: die_def)
next
  assume "\<not> isfile w (arg_pgn a)"
  then show "main w a = die (PgnNotFound (arg_pgn a))"
    by (simp add: main_def pipeline_def)
next
  assume "isfile w (arg_pgn a) \<and> \<not> (isfile w (arg_bayeselo a) \<and> executable w (arg_bayeselo a))"
  then show "main w a = die (BayesEloNotExecutable (arg_bayeselo a))"
    by (auto simp: main_def pipeline_def)
next
  assume ok: "inputs_ok w a"
  show "case popen w (arg_bayeselo a) (session_script (arg_pgn a)) of
           NoSuchFile \<Rightarrow> main w a = die (BayesEloNotFound (arg_bayeselo a))
         | Exited returncode out \<Rightarrow>
             if returncode \<noteq> 0 then main w a = die (BayesEloFailed returncode out)
             else (case parse_ratings out of
                     Inl e \<Rightarrow> main w a = die (CouldNotParse (tail_lines out))
                   | Inr raw \<Rightarrow>
                       (case assemble (arg_pgn a) (arg_engine_name a) (mean_center raw) of
                          Inl e \<Rightarrow> main w a = die e \<and>
                            (\<exists>target. e = EngineNotFound target (map name (make_rows (mean_center raw))))
                        | Inr payload \<Rightarrow>
                            main w a = \<lparr>stdout = Some payload, stderr = None, exit_status = 0\<rparr>))"
  proof (cases "popen w (arg_bayeselo a) (session_script (arg_pgn a))")
    case NoSuchFile
    with ok show ?thesis
      by (simp add: main_def pipeline_def run_bayeselo_def inputs_ok_def)
  next
    case (Exited returncode out)
    show ?thesis
    proof (cases "returncode = 0")
      case False
      with ok Exited show ?thesis
        by (simp add: main_def pipeline_def run_bayeselo_def inputs_ok_def)
    next
      case True
      with ok Exited have p: "pipeline w a =
          (case parse_ratings out of
             Inl e \<Rightarrow> Inl e
           | Inr raw \<Rightarrow> assemble (arg_pgn a) (arg_engine_name a) (mean_center raw))"
        by (simp add: pipeline_def run_bayeselo_def inputs_ok_def)
      show ?thesis
      proof (cases "parse_ratings out")
        case (Inl e)
        then have "e = CouldNotParse (tail_lines out)"
          by (simp add: parse_ratings_eq split: if_splits)
        with Inl p Exited True show ?thesis by (simp add: main_def)
      next
        case (Inr raw)
        show ?thesis
        proof (cases "assemble (arg_pgn a) (arg_engine_name a) (mean_center raw)")
          case (Inl e)
          from assemble_failure [OF Inl] Inl Inr p Exited True show ?thesis
            by (auto simp: main_def)
        next
          case (Inr payload)
          with \<open>parse_ratings out = Inr raw\<close> p Exited True show ?thesis
            by (simp add: main_def)
        qed
      qed
    qed
  qed
qed

theorem main_all_or_nothing_witness:
  "main \<lparr>isfile = (\<lambda>p. False), executable = (\<lambda>p. False), popen = (\<lambda>b s. NoSuchFile)\<rparr>
        \<lparr>arg_pgn = ''g.pgn'', arg_bayeselo = ''bayeselo'', arg_engine_name = None\<rparr>
     = \<lparr>stdout = None, stderr = Some (PgnNotFound ''g.pgn''), exit_status = 1\<rparr>
   \<and> main \<lparr>isfile = (\<lambda>p. True), executable = (\<lambda>p. True), popen = (\<lambda>b s. Exited 2 ''boom'')\<rparr>
        \<lparr>arg_pgn = ''g.pgn'', arg_bayeselo = ''bayeselo'', arg_engine_name = None\<rparr>
     = \<lparr>stdout = None, stderr = Some (BayesEloFailed 2 ''boom''), exit_status = 1\<rparr>
   \<and> main \<lparr>isfile = (\<lambda>p. True), executable = (\<lambda>p. True), popen = (\<lambda>b s. Exited 0 ''no table'')\<rparr>
        \<lparr>arg_pgn = ''g.pgn'', arg_bayeselo = ''bayeselo'', arg_engine_name = None\<rparr>
     = \<lparr>stdout = None, stderr = Some (CouldNotParse ''no table''), exit_status = 1\<rparr>
   \<and> main \<lparr>isfile = (\<lambda>p. True), executable = (\<lambda>p. True),
             popen = (\<lambda>b s. Exited 0 ''A 10 5\<newline>B -10 5'')\<rparr>
        \<lparr>arg_pgn = ''g.pgn'', arg_bayeselo = ''bayeselo'', arg_engine_name = Some ''Z''\<rparr>
     = \<lparr>stdout = None, stderr = Some (EngineNotFound ''Z'' [''A'', ''B'']), exit_status = 1\<rparr>
   \<and> main \<lparr>isfile = (\<lambda>p. True), executable = (\<lambda>p. True),
             popen = (\<lambda>b s. Exited 0 ''A 10 5\<newline>B -10 5'')\<rparr>
        \<lparr>arg_pgn = ''g.pgn'', arg_bayeselo = ''bayeselo'', arg_engine_name = None\<rparr>
     = \<lparr>stdout = Some \<lparr>version = ''0'', mode = ''relative-only'', pgn = ''g.pgn'',
                        body = Ratings [\<lparr>name = ''A'', elo = 10, sigma = 5\<rparr>,
                                        \<lparr>name = ''B'', elo = - 10, sigma = 5\<rparr>],
                        notes_text = ''Relative Elo, mean-centered; not calibrated to any external scale.''\<rparr>,
        stderr = None, exit_status = 0\<rparr>"
proof -
  let ?a = "\<lparr>arg_pgn = ''g.pgn'', arg_bayeselo = ''bayeselo'', arg_engine_name = None\<rparr>"
  let ?z = "\<lparr>arg_pgn = ''g.pgn'', arg_bayeselo = ''bayeselo'', arg_engine_name = Some ''Z''\<rparr>"
  let ?ok = "\<lparr>isfile = (\<lambda>p. True), executable = (\<lambda>p. True),
              popen = (\<lambda>b s. Exited 0 ''A 10 5\<newline>B -10 5'')\<rparr>"
  have g: "parse_ratings ''no table'' = Inl (CouldNotParse ''no table'')" by code_simp
  have t: "tail_lines ''no table'' = ''no table''" by code_simp
  have p: "parse_ratings ''A 10 5\<newline>B -10 5'' = Inr [(''A'', 10, 5), (''B'', - 10, 5)]"
    by code_simp
  have m: "mean_center [(''A'', 10, 5), (''B'', - 10, 5)] = [(''A'', 10, 5), (''B'', - 10, 5)]"
    by (simp add: mean_center_def)
  have r: "make_rows [(''A'', 10, 5), (''B'', - 10, 5)] =
      [\<lparr>name = ''A'', elo = 10, sigma = 5\<rparr>, \<lparr>name = ''B'', elo = - 10, sigma = 5\<rparr>]"
    by (simp add: make_rows_def sorted_reverse_def row_of_def)
  have 1: "main \<lparr>isfile = (\<lambda>p. False), executable = (\<lambda>p. False), popen = (\<lambda>b s. NoSuchFile)\<rparr> ?a
      = \<lparr>stdout = None, stderr = Some (PgnNotFound ''g.pgn''), exit_status = 1\<rparr>"
    using main_all_or_nothing
      [of "\<lparr>isfile = (\<lambda>p. False), executable = (\<lambda>p. False), popen = (\<lambda>b s. NoSuchFile)\<rparr>" ?a
          "PgnNotFound ''g.pgn''"]
    by simp
  have 2: "main \<lparr>isfile = (\<lambda>p. True), executable = (\<lambda>p. True), popen = (\<lambda>b s. Exited 2 ''boom'')\<rparr> ?a
      = \<lparr>stdout = None, stderr = Some (BayesEloFailed 2 ''boom''), exit_status = 1\<rparr>"
    using main_all_or_nothing
      [of "\<lparr>isfile = (\<lambda>p. True), executable = (\<lambda>p. True), popen = (\<lambda>b s. Exited 2 ''boom'')\<rparr>" ?a
          "BayesEloFailed 2 ''boom''"]
    by (simp add: inputs_ok_def)
  have 3: "main \<lparr>isfile = (\<lambda>p. True), executable = (\<lambda>p. True), popen = (\<lambda>b s. Exited 0 ''no table'')\<rparr> ?a
      = \<lparr>stdout = None, stderr = Some (CouldNotParse ''no table''), exit_status = 1\<rparr>"
    using main_all_or_nothing
      [of "\<lparr>isfile = (\<lambda>p. True), executable = (\<lambda>p. True), popen = (\<lambda>b s. Exited 0 ''no table'')\<rparr>" ?a
          "CouldNotParse ''no table''"]
    by (simp add: inputs_ok_def g t)
  have 4: "main ?ok ?z
      = \<lparr>stdout = None, stderr = Some (EngineNotFound ''Z'' [''A'', ''B'']), exit_status = 1\<rparr>"
    using main_all_or_nothing [of ?ok ?z "EngineNotFound ''Z'' [''A'', ''B'']"]
    by (simp add: inputs_ok_def p m assemble_def r)
  have 5: "main ?ok ?a
      = \<lparr>stdout = Some \<lparr>version = ''0'', mode = ''relative-only'', pgn = ''g.pgn'',
                        body = Ratings [\<lparr>name = ''A'', elo = 10, sigma = 5\<rparr>,
                                        \<lparr>name = ''B'', elo = - 10, sigma = 5\<rparr>],
                        notes_text = ''Relative Elo, mean-centered; not calibrated to any external scale.''\<rparr>,
        stderr = None, exit_status = 0\<rparr>"
    using main_all_or_nothing [of ?ok ?a "PgnNotFound []"]
    by (simp add: inputs_ok_def p m assemble_def r)
  from 1 2 3 4 5 show ?thesis by (intro conjI)
qed

end
